theory Spec2Isabelle
  imports Main "HOL-Library.Sublist" "HOL-Library.Char_ord" "HOL-Library.List_Lexorder"
begin

text \<open>
  A shallow embedding of \<open>main.py\<close>, the daily harvester of arXiv papers: the
  translation loop of \<open>Translater.translate\<close>, the harvest \<open>get_daily_papers\<close>, the
  two ways of updating a store file (\<open>update_json_file\<close> and
  \<open>update_paper_links\<close>), the renderer \<open>json_to_md\<close> and the driver \<open>demo\<close>.
  The network services, the clock and the files are arguments of the functions; what
  the process does to them is returned as a value.
\<close>

section \<open>Python values used by main.py\<close>

text \<open>
  A Python \<open>str\<close> is a \<^typ>\<open>string\<close>: a list of characters, each a code point below 256.
  An exception is a value of \<open>py_error\<close>; a function that may raise returns
  \<open>py_error + 'a\<close>, with \<open>Inl\<close> for the exception.
\<close>

datatype py_error =
    IndexError
  | UnboundLocalError
  | FileNotFoundError
  | JSONDecodeError
  | ServiceError string

text \<open>\<open>s.find(sub)\<close>: the index of the first occurrence of \<open>sub\<close>, or \<open>-1\<close>.\<close>

fun find_from :: "nat \<Rightarrow> string \<Rightarrow> string \<Rightarrow> int" where
  "find_from i sub [] = (if sub = [] then int i else - 1)"
| "find_from i sub (c # cs) =
     (if prefix sub (c # cs) then int i else find_from (Suc i) sub cs)"

definition str_find :: "string \<Rightarrow> string \<Rightarrow> int" where
  "str_find s sub = find_from 0 sub s"

text \<open>\<open>sub in s\<close>.\<close>

definition str_in :: "string \<Rightarrow> string \<Rightarrow> bool" where
  "str_in sub s = (str_find s sub \<noteq> - 1)"

text \<open>\<open>s.split(sep)\<close> for a separator of one character (main.py splits on \<open>"|"\<close> only).\<close>

fun str_split :: "char \<Rightarrow> string \<Rightarrow> string list" where
  "str_split sep [] = [[]]"
| "str_split sep (c # cs) =
     (if c = sep then [] # str_split sep cs
      else (case str_split sep cs of
              [] \<Rightarrow> [[c]]
            | p # ps \<Rightarrow> (c # p) # ps))"

text \<open>
  \<open>str.isspace\<close> on code points below 256: tab to carriage return, the four
  separators 28 to 31, space, NEL (133) and the no-break space (160).
\<close>

definition is_space :: "char \<Rightarrow> bool" where
  "is_space c =
     (let n = (of_char c :: nat)
      in (9 \<le> n \<and> n \<le> 13) \<or> (28 \<le> n \<and> n \<le> 32) \<or> n = 133 \<or> n = 160)"

text \<open>\<open>s.strip()\<close>.\<close>

definition str_strip :: "string \<Rightarrow> string" where
  "str_strip s = rev (dropWhile is_space (rev (dropWhile is_space s)))"

text \<open>
  \<open>s.replace(old, new)\<close> for a non-empty \<open>old\<close>: the occurrences are replaced from
  the left and do not overlap.
\<close>

function str_replace :: "string \<Rightarrow> string \<Rightarrow> string \<Rightarrow> string" where
  "str_replace old new s =
     (if s = [] then []
      else if old \<noteq> [] \<and> prefix old s
        then new @ str_replace old new (drop (length old) s)
      else hd s # str_replace old new (tl s))"
  by pat_completeness auto
termination
  by (relation "measure (\<lambda>(old, new, s). length s)") auto

declare str_replace.simps [simp del]

text \<open>\<open>\d\<close> on code points below 256.\<close>

definition is_digit :: "char \<Rightarrow> bool" where
  "is_digit c = (CHR ''0'' \<le> c \<and> c \<le> CHR ''9'')"

text \<open>
  \<open>re.sub(r"v\d+", "", s)\<close>: every \<open>v\<close> that is followed by a digit is removed
  together with the whole run of digits after it.
\<close>

function re_sub_version :: "string \<Rightarrow> string" where
  "re_sub_version [] = []"
| "re_sub_version (c # cs) =
     (if c = CHR ''v'' \<and> cs \<noteq> [] \<and> is_digit (hd cs)
      then re_sub_version (dropWhile is_digit cs)
      else c # re_sub_version cs)"
  by pat_completeness auto
termination
  by (relation "measure length") (auto simp: length_dropWhile_le less_Suc_eq_le)

text \<open>\<open>xs[-1]\<close> and \<open>xs[0]\<close> raise IndexError on an empty sequence.\<close>

definition index_last :: "'a list \<Rightarrow> py_error + 'a" where
  "index_last xs = (if xs = [] then Inl IndexError else Inr (last xs))"

definition index_first :: "'a list \<Rightarrow> py_error + 'a" where
  "index_first xs = (case xs of [] \<Rightarrow> Inl IndexError | x # _ \<Rightarrow> Inr x)"

text \<open>\<open>xs[i]\<close> for \<open>i \<ge> 0\<close>.\<close>

definition index_at :: "'a list \<Rightarrow> nat \<Rightarrow> py_error + 'a" where
  "index_at xs i = (if i < length xs then Inr (xs ! i) else Inl IndexError)"

text \<open>
  A \<open>dict\<close> keeps its keys in insertion order, and \<open>json.dump\<close> writes them in that
  order, so a dict is an association list with distinct keys. \<open>d[k] = v\<close> overwrites
  the value of a key that is present where it stands and appends a new key.
\<close>

fun dict_set :: "'k \<Rightarrow> 'v \<Rightarrow> ('k \<times> 'v) list \<Rightarrow> ('k \<times> 'v) list" where
  "dict_set k v [] = [(k, v)]"
| "dict_set k v (p # ps) = (if fst p = k then (k, v) # ps else p # dict_set k v ps)"

text \<open>\<open>d.update(other)\<close>: \<open>d[k] = v\<close> for every item of \<open>other\<close>, in its order.\<close>

definition dict_update :: "('k \<times> 'v) list \<Rightarrow> ('k \<times> 'v) list \<Rightarrow> ('k \<times> 'v) list" where
  "dict_update d other = fold (\<lambda>(k, v). dict_set k v) other d"

text \<open>One topic bucket maps a paper key to its record line; the store maps a topic to its bucket.\<close>

type_synonym bucket = "(string \<times> string) list"
type_synonym store = "(string \<times> bucket) list"

text \<open>
  The association lists that stand for a \<open>dict\<close> hold every key once; a store is a
  dict of dicts.
\<close>

definition is_dict :: "('k \<times> 'v) list \<Rightarrow> bool" where
  "is_dict d = distinct (map fst d)"

definition wf_store :: "store \<Rightarrow> bool" where
  "wf_store m = (is_dict m \<and> list_all (\<lambda>(keyword, papers). is_dict papers) m)"

section \<open>Translater.translate\<close>

text \<open>
  The effects of the process on the world outside: how many times
  \<open>generate_content\<close> has been called, the arguments of every \<open>time.sleep\<close> so
  far, and the urls of every \<open>requests.get\<close> so far, both in order.
\<close>

record world =
  calls :: nat
  slept :: "nat list"
  requests :: "string list"

text \<open>
  The translation service: what the \<open>n\<close>-th call of \<open>generate_content\<close> (with reading
  \<open>response.text\<close>) gives for a prompt, a text or an exception.
\<close>

type_synonym translater = "nat \<Rightarrow> string \<Rightarrow> py_error + string"

definition NUM_RETRIES :: nat where
  "NUM_RETRIES = 3"

definition translate_prompt :: "string \<Rightarrow> string" where
  "translate_prompt text =
     ''Note output format, here is the abstract to translate:'' @ [CHR 0x0A] @ text"

text \<open>
  The \<open>while\<close> loop of \<open>translate\<close>. \<open>result\<close> is unbound (\<open>None\<close>) until the
  \<open>try\<close> body or the \<open>finally\<close> clause assigns it.
\<close>

function translate_loop ::
  "translater \<Rightarrow> string \<Rightarrow> nat \<Rightarrow> nat \<Rightarrow> string option \<Rightarrow> world \<Rightarrow> string option \<times> world" where
  "translate_loop tr text retry_count retry_seconds result w =
     (if retry_count < NUM_RETRIES then
        (case tr (calls w) (translate_prompt text) of
           Inr r \<Rightarrow> (Some r, w\<lparr>calls := Suc (calls w)\<rparr>)
         | Inl e \<Rightarrow>
             (let w' = w\<lparr>calls := Suc (calls w), slept := slept w @ [retry_seconds]\<rparr>;
                  retry_count' = retry_count + 1;
                  retry_seconds' = retry_seconds * 2;
                  result' = (if retry_count' = NUM_RETRIES then Some text else result)
              in translate_loop tr text retry_count' retry_seconds' result' w'))
      else (result, w))"
  by pat_completeness auto
termination
  by (relation "measure (\<lambda>(tr, text, retry_count, rest). NUM_RETRIES - retry_count)") auto

declare translate_loop.simps [simp del]

definition translate :: "translater \<Rightarrow> string \<Rightarrow> world \<Rightarrow> (py_error + string) \<times> world" where
  "translate tr text w =
     (case translate_loop tr text 0 1 None w of
        (Some result, w') \<Rightarrow> (Inr result, w')
      | (None, w') \<Rightarrow> (Inl UnboundLocalError, w'))"

section \<open>get_daily_papers\<close>

definition base_url :: string where
  "base_url = ''https://arxiv.paperswithcode.com/api/v0/papers/''"

definition arxiv_url :: string where
  "arxiv_url = ''http://arxiv.org/''"

definition newline :: char where
  "newline = CHR 0x0A"

text \<open>
  One result of the arXiv search, with the attributes the record lines are built from:
  \<open>get_short_id()\<close>, \<open>title\<close>, \<open>summary\<close>, \<open>authors\<close> and
  \<open>updated.date()\<close> as \<open>format\<close> prints it.
\<close>

record arxiv_result =
  short_id :: string
  title :: string
  summary :: string
  authors :: "string list"
  updated :: string

text \<open>
  The two network services. \<open>search query max_results\<close> is what iterating
  \<open>arxiv.Search(...).results()\<close> gives: the results, or the exception it raises.
  \<open>registry n url\<close> is what the \<open>try\<close> block computes from
  \<open>requests.get(url).json()\<close> when that is request number \<open>n\<close> of the process:
  an exception (transport, JSON decoding, a response of another shape), \<open>None\<close> when
  the response has no truthy \<open>official\<close> entry or its \<open>url\<close> is null, or the url.
\<close>

record services =
  search :: "string \<Rightarrow> nat \<Rightarrow> py_error + arxiv_result list"
  registry :: "nat \<Rightarrow> string \<Rightarrow> py_error + string option"

text \<open>
  \<open>r = requests.get(code_url).json()\<close> and the reading of \<open>r["official"]["url"]\<close>:
  one request, whatever it gives.
\<close>

definition lookup :: "services \<Rightarrow> string \<Rightarrow> world \<Rightarrow> (py_error + string option) \<times> world" where
  "lookup env url w = (registry env (length (requests w)) url, w\<lparr>requests := requests w @ [url]\<rparr>)"

text \<open>\<open>get_authors(authors, first_author=True)\<close> is \<open>authors[0]\<close>.\<close>

definition first_author :: "string list \<Rightarrow> py_error + string" where
  "first_author as = index_first as"

text \<open>
  The retry loop around \<open>translater.translate\<close> in \<open>get_daily_papers\<close>: base interval
  10, doubled after every failure; on exhaustion \<open>paper_abstract\<close> keeps its value.
\<close>

function abstract_loop ::
  "translater \<Rightarrow> string \<Rightarrow> nat \<Rightarrow> nat \<Rightarrow> world \<Rightarrow> string \<times> world" where
  "abstract_loop tr paper_abstract retry_count retry_seconds w =
     (if retry_count < NUM_RETRIES then
        (case translate tr paper_abstract w of
           (Inr t, w') \<Rightarrow> (t, w')
         | (Inl e, w') \<Rightarrow>
             abstract_loop tr paper_abstract (retry_count + 1) (retry_seconds * 2)
               (w'\<lparr>slept := slept w' @ [retry_seconds]\<rparr>))
      else (paper_abstract, w))"
  by pat_completeness auto
termination
  by (relation "measure (\<lambda>(tr, a, retry_count, rest). NUM_RETRIES - retry_count)") auto

declare abstract_loop.simps [simp del]

text \<open>\<open>ver_pos = paper_id.find("v")\<close> and the slice \<open>paper_id[0:ver_pos]\<close>.\<close>

definition paper_key_of :: "string \<Rightarrow> string" where
  "paper_key_of paper_id =
     (let ver_pos = str_find paper_id ''v''
      in if ver_pos = - 1 then paper_id else take (nat ver_pos) paper_id)"

text \<open>The two record lines, with and without a repository url.\<close>

definition content_line ::
  "string \<Rightarrow> string \<Rightarrow> string \<Rightarrow> string \<Rightarrow> string option \<Rightarrow> string \<Rightarrow> string" where
  "content_line update_time paper_title paper_key paper_url repo paper_abstract =
     (case repo of
        Some repo_url \<Rightarrow>
          ''|**'' @ update_time @ ''**|**'' @ paper_title @ ''**|['' @ paper_key @ '']('' @
          paper_url @ '')|**[link]('' @ repo_url @ '')**|**'' @ paper_abstract @ ''**|'' @
          [newline]
      | None \<Rightarrow>
          ''|**'' @ update_time @ ''**|**'' @ paper_title @ ''**|['' @ paper_key @ '']('' @
          paper_url @ '')|null|**'' @ paper_abstract @ ''**|'' @ [newline])"

definition web_line ::
  "string \<Rightarrow> string \<Rightarrow> string \<Rightarrow> string option \<Rightarrow> string \<Rightarrow> string" where
  "web_line update_time paper_title paper_url repo paper_abstract =
     (case repo of
        Some repo_url \<Rightarrow>
          ''- '' @ update_time @ '', **'' @ paper_title @ ''**, Paper: ['' @ paper_url @ '']('' @
          paper_url @ ''), Code: **['' @ repo_url @ '']('' @ repo_url @ '')**,Abstract: **'' @
          paper_abstract @ ''**'' @ [newline]
      | None \<Rightarrow>
          ''- '' @ update_time @ '', **'' @ paper_title @ ''**, Paper: ['' @ paper_url @ '']('' @
          paper_url @ ''),**'' @ paper_abstract @ ''**'' @ [newline])"

text \<open>
  The body of the \<open>for result in search_engine.results()\<close> loop. \<open>authors[0]\<close> is
  read outside the \<open>try\<close>, so its IndexError leaves the function; an exception of the
  registry lookup is caught and nothing is stored for the paper.
\<close>

definition harvest_paper ::
  "translater option \<Rightarrow> services \<Rightarrow> arxiv_result \<Rightarrow> bucket \<times> bucket \<times> world \<Rightarrow>
   py_error + bucket \<times> bucket \<times> world" where
  "harvest_paper translater env result st =
     (case st of (content, content_to_web, w) \<Rightarrow>
      let paper_id = short_id result;
          paper_title = title result;
          code_url = base_url @ paper_id;
          paper_abstract0 = str_replace [newline] '' '' (summary result)
      in (case first_author (authors result) of
            Inl e \<Rightarrow> Inl e
          | Inr paper_first_author \<Rightarrow>
              (case (case translater of
                       Some tr \<Rightarrow> abstract_loop tr paper_abstract0 0 10 w
                     | None \<Rightarrow> (paper_abstract0, w)) of
                 (paper_abstract, w1) \<Rightarrow>
                   (let update_time = updated result;
                        paper_key = paper_key_of paper_id;
                        paper_url = arxiv_url @ ''abs/'' @ paper_key
                    in (case lookup env code_url w1 of
                          (Inl e, w2) \<Rightarrow> Inr (content, content_to_web, w2)
                        | (Inr repo, w2) \<Rightarrow>
                            Inr (dict_set paper_key
                                   (content_line update_time paper_title paper_key paper_url repo
                                      paper_abstract) content,
                                 dict_set paper_key
                                   (web_line update_time paper_title paper_url repo
                                      paper_abstract) content_to_web,
                                 w2))))))"

fun harvest_loop ::
  "translater option \<Rightarrow> services \<Rightarrow> arxiv_result list \<Rightarrow> bucket \<times> bucket \<times> world \<Rightarrow>
   py_error + bucket \<times> bucket \<times> world" where
  "harvest_loop translater env [] st = Inr st"
| "harvest_loop translater env (result # results) st =
     (case harvest_paper translater env result st of
        Inl e \<Rightarrow> Inl e
      | Inr st' \<Rightarrow> harvest_loop translater env results st')"

text \<open>
  \<open>get_daily_papers\<close> returns \<open>data = {topic: content}\<close> and
  \<open>data_web = {topic: content_to_web}\<close>; an exception of the search leaves it.
\<close>

definition get_daily_papers ::
  "translater option \<Rightarrow> services \<Rightarrow> string \<Rightarrow> string \<Rightarrow> nat \<Rightarrow> world \<Rightarrow>
   py_error + store \<times> store \<times> world" where
  "get_daily_papers translater env topic query max_results w =
     (case search env query max_results of
        Inl e \<Rightarrow> Inl e
      | Inr results \<Rightarrow>
          (case harvest_loop translater env results ([], [], w) of
             Inl e \<Rightarrow> Inl e
           | Inr (content, content_to_web, w') \<Rightarrow>
               Inr ([(topic, content)], [(topic, content_to_web)], w')))"

section \<open>The store files\<close>

text \<open>
  A file is kept as what \<open>f.read()\<close> and \<open>json.loads\<close> make of its content:
  \<open>Text s\<close> is a file whose content \<open>s\<close> is not a JSON document, so that
  \<open>json.loads\<close> raises on it (the empty file is \<open>Text []\<close>, and main.py does not
  decode it); \<open>JsonDoc m\<close> is a file holding a JSON document that \<open>json.loads\<close> decodes
  to the dict \<open>m\<close>, which is also what \<open>json.dump(m, f)\<close> leaves behind. A name
  that the file system does not map is a file that does not exist.
\<close>

datatype file_content = Text string | JsonDoc store

type_synonym fs = "string \<Rightarrow> file_content option"

text \<open>
  The common opening of \<open>update_json_file\<close>, \<open>update_paper_links\<close> and
  \<open>json_to_md\<close>: \<open>open(filename, "r")\<close>, \<open>f.read()\<close>, and \<open>json.loads\<close> unless
  the content is empty. No exception is caught.
\<close>

definition load_store :: "fs \<Rightarrow> string \<Rightarrow> py_error + store" where
  "load_store files filename =
     (case files filename of
        None \<Rightarrow> Inl FileNotFoundError
      | Some (Text content) \<Rightarrow> (if content = [] then Inr [] else Inl JSONDecodeError)
      | Some (JsonDoc m) \<Rightarrow> Inr m)"

text \<open>
  \<open>json.dump\<close> with its defaults (\<open>ensure_ascii\<close>, separators \<open>", "\<close> and
  \<open>": "\<close>) on a dict of dicts of strings.
\<close>

definition hex_digit :: "nat \<Rightarrow> char" where
  "hex_digit n = (if n < 10 then char_of (48 + n) else char_of (87 + n))"

definition json_escape_char :: "char \<Rightarrow> string" where
  "json_escape_char c =
     (if c = CHR 0x22 then [CHR 0x5C, CHR 0x22]
      else if c = CHR 0x5C then [CHR 0x5C, CHR 0x5C]
      else if c = CHR 0x0A then [CHR 0x5C, CHR ''n'']
      else if c = CHR 0x0D then [CHR 0x5C, CHR ''r'']
      else if c = CHR 0x09 then [CHR 0x5C, CHR ''t'']
      else if c = CHR 0x08 then [CHR 0x5C, CHR ''b'']
      else if c = CHR 0x0C then [CHR 0x5C, CHR ''f'']
      else if CHR 0x20 \<le> c \<and> c \<le> CHR 0x7E then [c]
      else [CHR 0x5C, CHR ''u'', CHR ''0'', CHR ''0'',
            hex_digit ((of_char c :: nat) div 16), hex_digit ((of_char c :: nat) mod 16)])"

definition json_string :: "string \<Rightarrow> string" where
  "json_string s = [CHR 0x22] @ concat (map json_escape_char s) @ [CHR 0x22]"

fun join :: "string \<Rightarrow> string list \<Rightarrow> string" where
  "join sep [] = []"
| "join sep [x] = x"
| "join sep (x # y # ys) = x @ sep @ join sep (y # ys)"

definition json_dict :: "('v \<Rightarrow> string) \<Rightarrow> (string \<times> 'v) list \<Rightarrow> string" where
  "json_dict dump_value d =
     ''{'' @ join '', '' (map (\<lambda>(k, v). json_string k @ '': '' @ dump_value v) d) @ ''}''"

definition json_dump :: "store \<Rightarrow> string" where
  "json_dump m = json_dict (json_dict json_string) m"

section \<open>update_json_file\<close>

text \<open>
  The body of \<open>for data in data_dict: for keyword in data.keys()\<close>. The buckets of
  \<open>data_dict\<close> are taken as values: \<open>get_daily_papers\<close> builds a fresh dict for
  every topic, and the topics of one run are the distinct keys of \<open>config["kv"]\<close>.
\<close>

fun merge_data :: "store \<Rightarrow> store \<Rightarrow> store" where
  "merge_data json_data [] = json_data"
| "merge_data json_data ((keyword, papers) # rest) =
     merge_data
       (case map_of json_data keyword of
          Some existing \<Rightarrow> dict_set keyword (dict_update existing papers) json_data
        | None \<Rightarrow> dict_set keyword papers json_data)
       rest"

definition merge_all :: "store \<Rightarrow> store list \<Rightarrow> store" where
  "merge_all m data_dict = fold (\<lambda>data json_data. merge_data json_data data) data_dict m"

definition update_json_file :: "fs \<Rightarrow> string \<Rightarrow> store list \<Rightarrow> py_error + fs" where
  "update_json_file files filename data_dict =
     (case load_store files filename of
        Inl e \<Rightarrow> Inl e
      | Inr m \<Rightarrow> Inr (files(filename \<mapsto> JsonDoc (merge_all m data_dict))))"

section \<open>update_paper_links\<close>

text \<open>\<open>parse_arxiv_string\<close>: \<open>parts[1]\<close> to \<open>parts[5]\<close> of the split at \<open>|\<close>.\<close>

definition parse_arxiv_string ::
  "string \<Rightarrow> py_error + string \<times> string \<times> string \<times> string \<times> string" where
  "parse_arxiv_string s =
     (let parts = str_split (CHR ''|'') s
      in (case index_at parts 1 of Inl e \<Rightarrow> Inl e | Inr p1 \<Rightarrow>
         (case index_at parts 2 of Inl e \<Rightarrow> Inl e | Inr p2 \<Rightarrow>
         (case index_at parts 3 of Inl e \<Rightarrow> Inl e | Inr p3 \<Rightarrow>
         (case index_at parts 4 of Inl e \<Rightarrow> Inl e | Inr p4 \<Rightarrow>
         (case index_at parts 5 of Inl e \<Rightarrow> Inl e | Inr p5 \<Rightarrow>
            Inr (str_strip p1, str_strip p2, re_sub_version (str_strip p3), str_strip p4,
                 str_strip p5)))))))"

definition format_contents ::
  "string \<Rightarrow> string \<Rightarrow> string \<Rightarrow> string \<Rightarrow> string \<Rightarrow> string" where
  "format_contents update_time paper_title paper_url code_url abstract =
     ''|'' @ update_time @ ''|'' @ paper_title @ ''|'' @ paper_url @ ''|'' @ code_url @ ''|'' @
     abstract @ ''|'' @ [newline]"

text \<open>\<open>valid_link = False if "|null|" in contents else True\<close>.\<close>

definition valid_link :: "string \<Rightarrow> bool" where
  "valid_link contents = (if str_in ''|null|'' contents then False else True)"

text \<open>
  The body of \<open>for paper_id, contents in v.items()\<close>: the record is parsed (outside
  the \<open>try\<close>) and stored again from its five fields; unless that line holds
  \<open>|null|\<close> nothing more is done, else the registry is asked and every \<open>|null|\<close> of
  the line is replaced by the link.
\<close>

definition repair_record ::
  "services \<Rightarrow> string \<Rightarrow> string \<Rightarrow> world \<Rightarrow> py_error + string \<times> world" where
  "repair_record env paper_id contents0 w =
     (case parse_arxiv_string contents0 of
        Inl e \<Rightarrow> Inl e
      | Inr (update_time, paper_title, paper_url, code_url, abstract) \<Rightarrow>
          let contents = format_contents update_time paper_title paper_url code_url abstract
          in if valid_link contents then Inr (contents, w)
             else (case lookup env (base_url @ paper_id) w of
                     (Inr (Some repo_url), w') \<Rightarrow>
                       Inr (str_replace ''|null|'' (''|**[link]('' @ repo_url @ '')**|'') contents,
                            w')
                   | (Inr None, w') \<Rightarrow> Inr (contents, w')
                   | (Inl e, w') \<Rightarrow> Inr (contents, w')))"

text \<open>
  The two loops over the store. Every assignment \<open>json_data[keywords][paper_id] = ...\<close>
  is to a key that is present, so the keys and their order stay as they are.
\<close>

fun repair_bucket :: "services \<Rightarrow> bucket \<Rightarrow> world \<Rightarrow> py_error + bucket \<times> world" where
  "repair_bucket env [] w = Inr ([], w)"
| "repair_bucket env ((paper_id, contents) # rest) w =
     (case repair_record env paper_id contents w of
        Inl e \<Rightarrow> Inl e
      | Inr (contents', w1) \<Rightarrow>
          (case repair_bucket env rest w1 of
             Inl e \<Rightarrow> Inl e
           | Inr (rest', w2) \<Rightarrow> Inr ((paper_id, contents') # rest', w2)))"

fun repair_store :: "services \<Rightarrow> store \<Rightarrow> world \<Rightarrow> py_error + store \<times> world" where
  "repair_store env [] w = Inr ([], w)"
| "repair_store env ((keywords, v) # rest) w =
     (case repair_bucket env v w of
        Inl e \<Rightarrow> Inl e
      | Inr (v', w1) \<Rightarrow>
          (case repair_store env rest w1 of
             Inl e \<Rightarrow> Inl e
           | Inr (rest', w2) \<Rightarrow> Inr ((keywords, v') # rest', w2)))"

definition update_paper_links ::
  "services \<Rightarrow> fs \<Rightarrow> string \<Rightarrow> world \<Rightarrow> py_error + fs \<times> world" where
  "update_paper_links env files filename w =
     (case load_store files filename of
        Inl e \<Rightarrow> Inl e
      | Inr m \<Rightarrow>
          (case repair_store env m w of
             Inl e \<Rightarrow> Inl e
           | Inr (json_data, w') \<Rightarrow> Inr (files(filename \<mapsto> JsonDoc json_data), w')))"

text \<open>
  How \<open>update_paper_links\<close> reads a stored record: its code field is the fourth value
  of \<open>parse_arxiv_string\<close>, and the record counts as linked when the line rebuilt
  from its fields passes \<open>valid_link\<close>.
\<close>

definition code_field :: "string \<Rightarrow> string option" where
  "code_field contents =
     (case parse_arxiv_string contents of
        Inl e \<Rightarrow> None
      | Inr (update_time, paper_title, paper_url, code_url, abstract) \<Rightarrow> Some code_url)"

definition linked :: "string \<Rightarrow> bool" where
  "linked contents =
     (case parse_arxiv_string contents of
        Inl e \<Rightarrow> False
      | Inr (update_time, paper_title, paper_url, code_url, abstract) \<Rightarrow>
          valid_link (format_contents update_time paper_title paper_url code_url abstract))"

text \<open>
  The records a batch holds for one topic, in the order in which \<open>update_json_file\<close>
  merges them.
\<close>

definition incoming :: "string \<Rightarrow> store list \<Rightarrow> bucket" where
  "incoming keyword data_dict =
     concat (map snd (filter (\<lambda>x. fst x = keyword) (concat data_dict)))"

section \<open>json_to_md\<close>

text \<open>
  \<open>sort_papers\<close>: the keys of the bucket, sorted in descending order (strings compare
  by code point), each with its value.
\<close>

definition sort_papers :: "bucket \<Rightarrow> bucket" where
  "sort_papers papers =
     concat (map (\<lambda>key. case map_of papers key of Some v \<Rightarrow> [(key, v)] | None \<Rightarrow> [])
               (rev (sort (map fst papers))))"

text \<open>
  \<open>re.search(r"\$.*\$", s)\<close>: the match starts at the first \<open>$\<close> that has another
  \<open>$\<close> after it before the next line break (\<open>.\<close> matches no line break), and, being
  greedy, ends behind the last \<open>$\<close> of that stretch. The result is \<open>match.span()\<close>.
\<close>

fun math_span_from :: "nat \<Rightarrow> string \<Rightarrow> (nat \<times> nat) option" where
  "math_span_from i [] = None"
| "math_span_from i (c # cs) =
     (let run = takeWhile (\<lambda>x. x \<noteq> newline) cs
      in if c = CHR ''$'' \<and> CHR ''$'' \<in> set run
         then Some (i, i + 1 + (length run - length (takeWhile (\<lambda>x. x \<noteq> CHR ''$'') (rev run))))
         else math_span_from (Suc i) cs)"

definition math_span :: "string \<Rightarrow> (nat \<times> nat) option" where
  "math_span s = math_span_from 0 s"

text \<open>
  \<open>pretty_math\<close>. \<open>s[:math_start][-1]\<close> and \<open>s[math_end:][0]\<close> index a slice; on
  an empty slice that is an IndexError.
\<close>

definition pretty_math :: "string \<Rightarrow> py_error + string" where
  "pretty_math s =
     (case math_span s of
        None \<Rightarrow> Inr s
      | Some (math_start, math_end) \<Rightarrow>
          (case index_last (take math_start s) of
             Inl e \<Rightarrow> Inl e
           | Inr prev_char \<Rightarrow>
               (let space_trail =
                      (if prev_char \<noteq> CHR '' '' \<and> CHR ''*'' \<noteq> prev_char then '' '' else [])
                in case index_first (drop math_end s) of
                     Inl e \<Rightarrow> Inl e
                   | Inr next_char \<Rightarrow>
                       (let space_leading =
                              (if next_char \<noteq> CHR '' '' \<and> CHR ''*'' \<noteq> next_char then '' '' else []);
                            group = take (math_end - math_start) (drop math_start s)
                        in Inr (take math_start s @ space_trail @ ''$'' @
                                str_strip (butlast (tl group)) @ ''$'' @ space_leading @
                                drop math_end s)))))"

text \<open>\<open>str.lower\<close> on code points below 256.\<close>

definition lower_char :: "char \<Rightarrow> char" where
  "lower_char c =
     (let n = (of_char c :: nat)
      in if (65 \<le> n \<and> n \<le> 90) \<or> (192 \<le> n \<and> n \<le> 222 \<and> n \<noteq> 215) then char_of (n + 32)
         else c)"

definition str_lower :: "string \<Rightarrow> string" where
  "str_lower s = map lower_char s"

text \<open>The loop \<open>for _, v in day_content.items(): f.write(pretty_math(v))\<close>.\<close>

fun write_rows :: "bucket \<Rightarrow> py_error + string" where
  "write_rows [] = Inr []"
| "write_rows ((k, v) # rest) =
     (case pretty_math v of
        Inl e \<Rightarrow> Inl e
      | Inr line \<Rightarrow>
          (case write_rows rest of
             Inl e \<Rightarrow> Inl e
           | Inr others \<Rightarrow> Inr (line @ others)))"

text \<open>The table of contents: one entry for every topic with a non-empty bucket.\<close>

fun write_toc :: "store \<Rightarrow> string" where
  "write_toc [] = []"
| "write_toc ((keyword, day_content) # rest) =
     (if day_content = [] then write_toc rest
      else ''    <li><a href=#'' @ str_lower (str_replace '' '' ''-'' keyword) @ ''>'' @ keyword @
           ''</a></li>'' @ [newline] @ write_toc rest)"

definition table_head :: "bool \<Rightarrow> string" where
  "table_head to_web =
     (if \<not> to_web
      then ''|Publish Date|Title|PDF|Code|Abstract|'' @ [newline] @
           ''|---|---|---|---|--------------------------------------------------|'' @ [newline]
      else ''| Publish Date | Title | PDF | Code | Abstract |'' @ [newline] @
           ''|:---------|:-----------------------|:------|:------|:-------------------------------------------------|'' @
           [newline])"

definition back_to_top :: "string \<Rightarrow> string" where
  "back_to_top DateNow =
     (let top_info = str_replace ''.'' [] (str_replace '' '' ''-'' (''#Updated on '' @ DateNow))
      in ''<p align=right>(<a href='' @ str_lower top_info @ ''>back to top</a>)</p>'' @
         [newline, newline])"

text \<open>The second loop over \<open>data.keys()\<close>: one section for every non-empty bucket.\<close>

fun write_sections :: "bool \<Rightarrow> bool \<Rightarrow> bool \<Rightarrow> string \<Rightarrow> store \<Rightarrow> py_error + string" where
  "write_sections to_web use_title use_b2t DateNow [] = Inr []"
| "write_sections to_web use_title use_b2t DateNow ((keyword, day_content) # rest) =
     (if day_content = [] then write_sections to_web use_title use_b2t DateNow rest
      else (case write_rows (sort_papers day_content) of
              Inl e \<Rightarrow> Inl e
            | Inr rows \<Rightarrow>
                (case write_sections to_web use_title use_b2t DateNow rest of
                   Inl e \<Rightarrow> Inl e
                 | Inr others \<Rightarrow>
                     Inr (''## '' @ keyword @ [newline, newline] @
                          (if use_title then table_head to_web else []) @
                          rows @ [newline] @
                          (if use_b2t then back_to_top DateNow else []) @
                          others))))"

text \<open>
  \<open>json_to_md\<close>; \<open>today\<close> is \<open>str(datetime.date.today())\<close>. The result is the
  file system with the report written, or the exception that left the function.
\<close>

definition json_to_md ::
  "string \<Rightarrow> fs \<Rightarrow> string \<Rightarrow> string \<Rightarrow> bool \<Rightarrow> bool \<Rightarrow> bool \<Rightarrow> bool \<Rightarrow> py_error + fs" where
  "json_to_md today files filename md_filename to_web use_title use_tc use_b2t =
     (let DateNow = str_replace ''-'' ''.'' today
      in case load_store files filename of
           Inl e \<Rightarrow> Inl e
         | Inr data \<Rightarrow>
             (case write_sections to_web use_title use_b2t DateNow data of
                Inl e \<Rightarrow> Inl e
              | Inr sections \<Rightarrow>
                  Inr (files(md_filename \<mapsto> Text (
                    (if use_title \<and> to_web
                     then ''---'' @ [newline] @ ''layout: default'' @ [newline] @ ''---'' @
                          [newline, newline]
                     else []) @
                    (if use_title then ''## Updated on '' @ DateNow @ [newline]
                     else ''> Updated on '' @ DateNow @ [newline]) @
                    ''> Usage instructions: [here](./docs/README.md#usage)'' @ [newline, newline] @
                    (if use_tc
                     then ''<details>'' @ [newline] @
                          ''  <summary>Table of Contents</summary>'' @ [newline] @
                          ''  <ol>'' @ [newline] @ write_toc data @
                          ''  </ol>'' @ [newline] @ ''</details>'' @ [newline, newline]
                     else []) @
                    sections)))))"

section \<open>demo\<close>

record config =
  kv :: "(string \<times> string) list"
  max_results :: nat
  publish_readme :: bool
  publish_gitpage :: bool
  update_links :: bool
  json_readme_path :: string
  md_readme_path :: string
  json_gitpage_path :: string
  md_gitpage_path :: string

text \<open>
  The loop \<open>for topic, keyword in keywords.items()\<close>: \<open>get_daily_papers\<close> is called
  with no \<open>try\<close> around it.
\<close>

fun collect ::
  "translater option \<Rightarrow> services \<Rightarrow> nat \<Rightarrow> (string \<times> string) list \<Rightarrow>
   store list \<times> store list \<times> world \<Rightarrow> py_error + store list \<times> store list \<times> world" where
  "collect translater env n [] st = Inr st"
| "collect translater env n ((topic, keyword) # rest) st =
     (case st of (data_collector, data_collector_web, w) \<Rightarrow>
        (case get_daily_papers translater env topic keyword n w of
           Inl e \<Rightarrow> Inl e
         | Inr (data, data_web, w') \<Rightarrow>
             collect translater env n rest
               (data_collector @ [data], data_collector_web @ [data_web], w')))"

text \<open>One report target: repair or merge the store file, then render it.\<close>

definition publish ::
  "services \<Rightarrow> config \<Rightarrow> string \<Rightarrow> store list \<Rightarrow> string \<Rightarrow> string \<Rightarrow> bool \<Rightarrow> bool \<Rightarrow> bool \<Rightarrow>
   fs \<times> world \<Rightarrow> py_error + fs \<times> world" where
  "publish env cfg today data_collector json_file md_file to_web use_tc use_b2t st =
     (case st of (files, w) \<Rightarrow>
        (case (if update_links cfg then update_paper_links env files json_file w
               else (case update_json_file files json_file data_collector of
                       Inl e \<Rightarrow> Inl e
                     | Inr files' \<Rightarrow> Inr (files', w))) of
           Inl e \<Rightarrow> Inl e
         | Inr (files', w') \<Rightarrow>
             (case json_to_md today files' json_file md_file to_web True use_tc use_b2t of
                Inl e \<Rightarrow> Inl e
              | Inr files'' \<Rightarrow> Inr (files'', w'))))"

definition demo ::
  "translater option \<Rightarrow> services \<Rightarrow> config \<Rightarrow> string \<Rightarrow> fs \<Rightarrow> world \<Rightarrow> py_error + fs \<times> world" where
  "demo translater env cfg today files w =
     (case (if \<not> update_links cfg
            then collect translater env (max_results cfg) (kv cfg) ([], [], w)
            else Inr ([], [], w)) of
        Inl e \<Rightarrow> Inl e
      | Inr (data_collector, data_collector_web, w') \<Rightarrow>
          (case (if publish_readme cfg
                 then publish env cfg today data_collector (json_readme_path cfg)
                        (md_readme_path cfg) False True True (files, w')
                 else Inr (files, w')) of
             Inl e \<Rightarrow> Inl e
           | Inr st1 \<Rightarrow>
               (if publish_gitpage cfg
                then publish env cfg today data_collector (json_gitpage_path cfg)
                       (md_gitpage_path cfg) True False False st1
                else Inr st1)))"

section \<open>Theorems\<close>

subsection \<open>The translation loop\<close>

text \<open>
  When every call of the service fails, the loop started at \<open>retry_count\<close> makes the
  remaining attempts, sleeps after each with the doubled interval, and leaves
  \<open>result\<close> bound to the text it was given.
\<close>

lemma translate_loop_all_fail:
  assumes "\<forall>n p. \<exists>e. tr n p = Inl e"
  shows "translate_loop tr a rc rs res w =
     (if rc < NUM_RETRIES then Some a else res,
      w\<lparr>calls := calls w + (NUM_RETRIES - rc),
        slept := slept w @ map (\<lambda>i. rs * 2 ^ i) [0..<NUM_RETRIES - rc]\<rparr>)"
  using assms
proof (induction tr a rc rs res w rule: translate_loop.induct)
  case (1 tr a retry_count retry_seconds result w)
  show ?case
  proof (cases "retry_count < NUM_RETRIES")
    case False
    then show ?thesis by (subst translate_loop.simps) simp
  next
    case True
    obtain e where e: "tr (calls w) (translate_prompt a) = Inl e"
      using "1.prems" by blast
    have upt: "[0..<NUM_RETRIES - retry_count] = 0 # map Suc [0..<NUM_RETRIES - Suc retry_count]"
      using True by (metis Suc_diff_Suc map_Suc_upt upt_conv_Cons zero_less_diff)
    show ?thesis
      apply (subst translate_loop.simps)
      using True e "1.IH"[OF True e refl refl refl refl "1.prems"]
      apply (simp add: Let_def upt)
      done
  qed
qed

lemma translate_all_fail:
  assumes "\<forall>n p. \<exists>e. tr n p = Inl e"
  shows "translate tr a w = (Inr a, w\<lparr>calls := calls w + 3, slept := slept w @ [1, 2, 4]\<rparr>)"
proof -
  have "[0..<NUM_RETRIES] = [0, 1, 2]"
    by (simp add: NUM_RETRIES_def upt_rec)
  then show ?thesis
    by (simp add: translate_def translate_loop_all_fail[OF assms] NUM_RETRIES_def)
qed

lemma abstract_loop_all_fail:
  assumes "\<forall>n p. \<exists>e. tr n p = Inl e"
  shows "abstract_loop tr a 0 10 w = (a, w\<lparr>calls := calls w + 3, slept := slept w @ [1, 2, 4]\<rparr>)"
  by (subst abstract_loop.simps) (simp add: translate_all_fail[OF assms] NUM_RETRIES_def)

text \<open>
  Claim C8. If the translation call fails on every attempt, \<open>translate\<close> makes exactly
  three attempts, sleeps after each failure for 1, 2 and 4 seconds (the interval doubles;
  the total is at least 3), and returns the text it was given; it raises nothing. In
  \<open>get_daily_papers\<close> the paper is then handled as it is without a translater: the same
  record lines with the untranslated abstract, and the paper is left out only where it
  is left out without a translater.
\<close>

theorem translate_exhaustion:
  assumes "\<forall>n p. \<exists>e. tr n p = Inl e"
  shows "translate tr a w = (Inr a, w\<lparr>calls := calls w + 3, slept := slept w @ [1, 2, 4]\<rparr>) \<and>
         sum_list (slept w) + 3 \<le> sum_list (slept (snd (translate tr a w))) \<and>
         harvest_paper (Some tr) env r (content, content_to_web, w) =
           (case harvest_paper None env r (content, content_to_web, w) of
              Inl e \<Rightarrow> Inl e
            | Inr (c, cw, w') \<Rightarrow>
                Inr (c, cw, w'\<lparr>calls := calls w + 3, slept := slept w @ [1, 2, 4]\<rparr>))"
proof -
  have t: "translate tr a w = (Inr a, w\<lparr>calls := calls w + 3, slept := slept w @ [1, 2, 4]\<rparr>)"
    by (rule translate_all_fail[OF assms])
  have h: "harvest_paper (Some tr) env r (content, content_to_web, w) =
           (case harvest_paper None env r (content, content_to_web, w) of
              Inl e \<Rightarrow> Inl e
            | Inr (c, cw, w') \<Rightarrow>
                Inr (c, cw, w'\<lparr>calls := calls w + 3, slept := slept w @ [1, 2, 4]\<rparr>))"
    by (simp add: harvest_paper_def abstract_loop_all_fail[OF assms] lookup_def Let_def
        split: sum.splits prod.splits)
  show ?thesis using t h by simp
qed

theorem translate_exhaustion_witness:
  "(\<forall>n p. \<exists>e. (\<lambda>n p. Inl (ServiceError ''unavailable'')) n p = (Inl e :: py_error + string)) \<and>
   translate (\<lambda>n p. Inl (ServiceError ''unavailable'')) ''An abstract.''
     \<lparr>calls = 0, slept = [], requests = []\<rparr> =
     (Inr ''An abstract.'', \<lparr>calls = 3, slept = [1, 2, 4], requests = []\<rparr>)"
  using translate_exhaustion[of "\<lambda>n p. Inl (ServiceError ''unavailable'')" "''An abstract.''"
      "\<lparr>calls = 0, slept = [], requests = []\<rparr>"]
  by simp

subsection \<open>pretty_math\<close>

lemma last_occurrence:
  assumes "x \<in> set xs"
  defines "n \<equiv> length xs - length (takeWhile (\<lambda>y. y \<noteq> x) (rev xs))"
  shows "0 < n \<and> n \<le> length xs \<and> xs ! (n - 1) = x"
proof -
  let ?t = "takeWhile (\<lambda>y. y \<noteq> x) (rev xs)"
  have "dropWhile (\<lambda>y. y \<noteq> x) (rev xs) \<noteq> []"
    using assms(1) by (auto simp: dropWhile_eq_Nil_conv)
  moreover have "length (rev xs) = length ?t + length (dropWhile (\<lambda>y. y \<noteq> x) (rev xs))"
    by (metis takeWhile_dropWhile_id length_append)
  ultimately have lt: "length ?t < length (rev xs)"
    by simp
  then have "\<not> (rev xs ! length ?t \<noteq> x)"
    by (rule nth_length_takeWhile)
  then have "rev xs ! length ?t = x" by simp
  moreover have "rev xs ! length ?t = xs ! (length xs - Suc (length ?t))"
    using lt by (simp add: rev_nth)
  ultimately show ?thesis using lt by (simp add: n_def)
qed

lemma math_span_from_bounds:
  "math_span_from i s = Some (a, b) \<Longrightarrow>
     i \<le> a \<and> a + 2 \<le> b \<and> b \<le> i + length s \<and> s ! (a - i) = CHR ''$'' \<and>
     s ! (b - 1 - i) = CHR ''$''"
proof (induction s arbitrary: i)
  case Nil
  then show ?case by simp
next
  case (Cons c cs)
  define run where "run = takeWhile (\<lambda>x. x \<noteq> newline) cs"
  define n where "n = length run - length (takeWhile (\<lambda>x. x \<noteq> CHR ''$'') (rev run))"
  show ?case
  proof (cases "c = CHR ''$'' \<and> CHR ''$'' \<in> set run")
    case True
    then have ab: "a = i" "b = i + 1 + n"
      using Cons.prems by (simp_all add: Let_def run_def n_def)
    have n: "0 < n" "n \<le> length run" "run ! (n - 1) = CHR ''$''"
      using True last_occurrence[of "CHR ''$''" run] by (simp_all add: n_def)
    have len: "length run \<le> length cs"
      unfolding run_def by (rule length_takeWhile_le)
    have "n - 1 < length run"
      using n by linarith
    then have "run ! (n - 1) = cs ! (n - 1)"
      unfolding run_def by (rule takeWhile_nth)
    then have "cs ! (n - 1) = CHR ''$''" using n by simp
    moreover have "(c # cs) ! (b - 1 - i) = cs ! (n - 1)"
      using n ab by (cases n) simp_all
    ultimately show ?thesis using True ab n len by simp
  next
    case False
    then have "math_span_from (Suc i) cs = Some (a, b)"
      using Cons.prems by (auto simp: Let_def run_def)
    from Cons.IH[OF this] have ih: "Suc i \<le> a" "a + 2 \<le> b" "b \<le> Suc i + length cs"
      "cs ! (a - Suc i) = CHR ''$''" "cs ! (b - 1 - Suc i) = CHR ''$''" by simp_all
    have "a - i \<noteq> 0" "a - i - 1 = a - Suc i" "b - 1 - i \<noteq> 0" "b - 1 - i - 1 = b - 1 - Suc i"
      using ih(1,2) by linarith+
    then have "(c # cs) ! (a - i) = cs ! (a - Suc i)"
      and "(c # cs) ! (b - 1 - i) = cs ! (b - 1 - Suc i)"
      by (simp_all only: nth_Cons' if_False)
    then show ?thesis using ih by simp
  qed
qed

lemma math_span_bounds:
  "math_span s = Some (a, b) \<Longrightarrow>
     a + 2 \<le> b \<and> b \<le> length s \<and> s ! a = CHR ''$'' \<and> s ! (b - 1) = CHR ''$''"
  using math_span_from_bounds[of 0 s a b] by (simp add: math_span_def)

lemma math_span_from_two_dollars:
  "math_span_from i s = Some p \<Longrightarrow> 2 \<le> count_list s (CHR ''$'')"
proof (induction s arbitrary: i)
  case Nil
  then show ?case by simp
next
  case (Cons c cs)
  let ?run = "takeWhile (\<lambda>x. x \<noteq> newline) cs"
  show ?case
  proof (cases "c = CHR ''$'' \<and> CHR ''$'' \<in> set ?run")
    case True
    then have "CHR ''$'' \<in> set cs" by (meson set_takeWhileD)
    then have "count_list cs (CHR ''$'') \<noteq> 0" by (simp add: count_list_0_iff)
    then show ?thesis using True by simp
  next
    case False
    then have "math_span_from (Suc i) cs = Some p"
      using Cons.prems by (auto simp: Let_def)
    from Cons.IH[OF this] show ?thesis by simp
  qed
qed

lemma pretty_math_no_span: "math_span s = None \<Longrightarrow> pretty_math s = Inr s"
  by (simp add: pretty_math_def)

lemma pretty_math_edge:
  assumes "math_span s = Some (a, b)" and "a = 0 \<or> b = length s"
  shows "pretty_math s = Inl IndexError"
  using assms by (auto simp: pretty_math_def index_last_def index_first_def Let_def split: sum.splits list.splits)

lemma pretty_math_interior:
  assumes "math_span s = Some (a, b)" and "0 < a" and "b < length s"
  shows "\<exists>r. pretty_math s = Inr r"
proof -
  have "a < length s" using math_span_bounds[OF assms(1)] assms(3) by simp
  then have "take a s \<noteq> []" using assms(2) by auto
  moreover have "drop b s \<noteq> []" using assms(3) by simp
  ultimately show ?thesis
    using assms(1) by (auto simp: pretty_math_def index_last_def index_first_def Let_def split: sum.splits list.splits)
qed

text \<open>
  Claim C10. \<open>pretty_math\<close> returns a string exactly when the line has no
  \<open>$...$\<close> match or the match has a character before it and a character after it.
  A match that starts at the first character or ends at the last one makes it index an
  empty slice, and it raises IndexError. A line with no match, so any line with fewer
  than two \<open>$\<close>, is returned as it is.
\<close>

theorem pretty_math_returns:
  "(math_span s = None \<longrightarrow> pretty_math s = Inr s) \<and>
   (count_list s (CHR ''$'') < 2 \<longrightarrow> pretty_math s = Inr s) \<and>
   (\<forall>a b. math_span s = Some (a, b) \<longrightarrow>
      a + 2 \<le> b \<and> b \<le> length s \<and> s ! a = CHR ''$'' \<and> s ! (b - 1) = CHR ''$'' \<and>
      ((a = 0 \<or> b = length s) \<longrightarrow> pretty_math s = Inl IndexError) \<and>
      (0 < a \<and> b < length s \<longrightarrow> (\<exists>r. pretty_math s = Inr r))) \<and>
   ((\<exists>r. pretty_math s = Inr r) \<longleftrightarrow>
      (math_span s = None \<or> (\<exists>a b. math_span s = Some (a, b) \<and> 0 < a \<and> b < length s)))"
proof -
  have none: "math_span s = None \<longrightarrow> pretty_math s = Inr s"
    by (simp add: pretty_math_no_span)
  have few: "count_list s (CHR ''$'') < 2 \<longrightarrow> pretty_math s = Inr s"
  proof
    assume c: "count_list s (CHR ''$'') < 2"
    have "math_span s = None"
    proof (cases "math_span s")
      case (Some p)
      then show ?thesis using math_span_from_two_dollars[of 0 s p] c by (simp add: math_span_def)
    qed simp
    then show "pretty_math s = Inr s" by (rule pretty_math_no_span)
  qed
  have some: "\<forall>a b. math_span s = Some (a, b) \<longrightarrow>
      a + 2 \<le> b \<and> b \<le> length s \<and> s ! a = CHR ''$'' \<and> s ! (b - 1) = CHR ''$'' \<and>
      ((a = 0 \<or> b = length s) \<longrightarrow> pretty_math s = Inl IndexError) \<and>
      (0 < a \<and> b < length s \<longrightarrow> (\<exists>r. pretty_math s = Inr r))"
    using math_span_bounds pretty_math_edge pretty_math_interior by blast
  have iff: "(\<exists>r. pretty_math s = Inr r) \<longleftrightarrow>
      (math_span s = None \<or> (\<exists>a b. math_span s = Some (a, b) \<and> 0 < a \<and> b < length s))"
  proof (cases "math_span s")
    case None
    then show ?thesis using none by simp
  next
    case (Some p)
    obtain a b where p: "p = (a, b)" by (cases p)
    have b: "b \<le> length s" using math_span_bounds[of s a b] Some p by simp
    show ?thesis
    proof (cases "a = 0 \<or> b = length s")
      case True
      then have "pretty_math s = Inl IndexError" using pretty_math_edge Some p by blast
      then show ?thesis using True Some p by auto
    next
      case False
      then have "0 < a \<and> b < length s" using b by auto
      then show ?thesis using pretty_math_interior[of s a b] Some p by auto
    qed
  qed
  show ?thesis using none few some iff by blast
qed

theorem pretty_math_returns_witness:
  "math_span ''$L=1$is small'' = Some (0, 5) \<and>
   pretty_math ''$L=1$is small'' = Inl IndexError \<and>
   math_span ''the loss$L=1$'' = Some (8, 13) \<and>
   pretty_math ''the loss$L=1$'' = Inl IndexError \<and>
   math_span ''the loss$L=1$is small'' = Some (8, 13) \<and>
   (\<exists>r. pretty_math ''the loss$L=1$is small'' = Inr r) \<and>
   pretty_math ''no math'' = Inr ''no math''"
proof -
  have 1: "math_span ''$L=1$is small'' = Some (0, 5)" by code_simp
  have 2: "math_span ''the loss$L=1$'' = Some (8, 13)" by code_simp
  have 3: "math_span ''the loss$L=1$is small'' = Some (8, 13)" by code_simp
  have 4: "math_span ''no math'' = None" by code_simp
  show ?thesis
    using 1 2 3 4 pretty_math_returns[of "''$L=1$is small''"] pretty_math_returns[of "''the loss$L=1$''"]
      pretty_math_returns[of "''the loss$L=1$is small''"] pretty_math_returns[of "''no math''"]
    by simp
qed

subsection \<open>Dicts and the harvest merge\<close>

lemma map_of_dict_set: "map_of (dict_set k v d) = (map_of d)(k \<mapsto> v)"
  by (induction d) (auto simp: fun_eq_iff)

lemma keys_dict_set:
  "map fst (dict_set k v d) = (if k \<in> fst ` set d then map fst d else map fst d @ [k])"
  by (induction d) auto

lemma dict_set_present: "k \<in> fst ` set (dict_set k v d)"
  by (induction d) auto

lemma dict_set_keeps: "x \<in> fst ` set d \<Longrightarrow> x \<in> fst ` set (dict_set k v d)"
  by (induction d) auto

lemma dict_set_same: "map_of d k = Some v \<Longrightarrow> dict_set k v d = d"
  by (induction d) (auto split: if_splits)

lemma dict_set_twice: "dict_set k v (dict_set k v' d) = dict_set k v d"
  by (induction d) auto

lemma dict_set_commute:
  "k \<noteq> k' \<Longrightarrow> k \<in> fst ` set d \<Longrightarrow>
     dict_set k v (dict_set k' v' d) = dict_set k' v' (dict_set k v d)"
  by (induction d) auto

lemma dict_set_new: "k \<notin> fst ` set d \<Longrightarrow> dict_set k v d = d @ [(k, v)]"
  by (induction d) auto

lemma is_dict_dict_set: "is_dict d \<Longrightarrow> is_dict (dict_set k v d)"
  by (simp add: is_dict_def keys_dict_set)

lemma dict_update_Nil: "dict_update d [] = d"
  by (simp add: dict_update_def)

lemma dict_update_Cons: "dict_update d ((k, v) # other) = dict_update (dict_set k v d) other"
  by (simp add: dict_update_def)

lemma dict_update_append: "dict_update d (o1 @ o2) = dict_update (dict_update d o1) o2"
  by (simp add: dict_update_def)

lemma dict_update_keeps: "x \<in> fst ` set d \<Longrightarrow> x \<in> fst ` set (dict_update d other)"
proof (induction other arbitrary: d)
  case Nil
  then show ?case by (simp add: dict_update_Nil)
next
  case (Cons p other)
  obtain k v where p: "p = (k, v)" by (cases p)
  show ?case
    using Cons.IH[of "dict_set k v d"] Cons.prems
    by (simp add: p dict_update_Cons dict_set_keeps)
qed

lemma map_of_dict_update_other:
  "k \<notin> fst ` set other \<Longrightarrow> map_of (dict_update d other) k = map_of d k"
proof (induction other arbitrary: d)
  case Nil
  then show ?case by (simp add: dict_update_Nil)
next
  case (Cons p other)
  obtain k' v where p: "p = (k', v)" by (cases p)
  show ?case
    using Cons.IH[of "dict_set k' v d"] Cons.prems
    by (simp add: p dict_update_Cons map_of_dict_set)
qed

lemma dict_update_overwritten:
  "k \<in> fst ` set other \<Longrightarrow> k \<in> fst ` set d \<Longrightarrow>
     dict_update (dict_set k v d) other = dict_update d other"
proof (induction other arbitrary: d)
  case Nil
  then show ?case by simp
next
  case (Cons p other)
  obtain k' v' where p: "p = (k', v')" by (cases p)
  show ?case
  proof (cases "k' = k")
    case True
    then show ?thesis by (simp add: p dict_update_Cons dict_set_twice)
  next
    case False
    then have "k \<in> fst ` set other" using Cons.prems(1) p by auto
    moreover have "k \<in> fst ` set (dict_set k' v' d)"
      using Cons.prems(2) by (rule dict_set_keeps)
    ultimately have "dict_update (dict_set k v (dict_set k' v' d)) other =
        dict_update (dict_set k' v' d) other"
      by (rule Cons.IH)
    moreover have "dict_set k' v' (dict_set k v d) = dict_set k v (dict_set k' v' d)"
      using False Cons.prems(2) dict_set_commute[of k k' d v v'] by auto
    ultimately show ?thesis by (simp add: p dict_update_Cons)
  qed
qed

lemma dict_update_idem: "dict_update (dict_update d other) other = dict_update d other"
proof (induction other arbitrary: d)
  case Nil
  then show ?case by (simp add: dict_update_Nil)
next
  case (Cons p other)
  obtain k v where p: "p = (k, v)" by (cases p)
  let ?d1 = "dict_set k v d"
  let ?E = "dict_update ?d1 other"
  have kE: "k \<in> fst ` set ?E"
    by (intro dict_update_keeps dict_set_present)
  have "dict_update (dict_set k v ?E) other = dict_update ?E other"
  proof (cases "k \<in> fst ` set other")
    case True
    then show ?thesis using kE by (rule dict_update_overwritten)
  next
    case False
    then have "map_of ?E k = map_of ?d1 k" by (rule map_of_dict_update_other)
    then have "map_of ?E k = Some v" by (simp add: map_of_dict_set)
    then show ?thesis by (simp add: dict_set_same)
  qed
  then show ?case using Cons.IH[of ?d1] by (simp add: p dict_update_Cons)
qed

lemma dict_update_distinct:
  "distinct (map fst (d @ other)) \<Longrightarrow> dict_update d other = d @ other"
proof (induction other arbitrary: d)
  case Nil
  then show ?case by (simp add: dict_update_Nil)
next
  case (Cons p other)
  obtain k v where p: "p = (k, v)" by (cases p)
  have "k \<notin> fst ` set d" using Cons.prems p by auto
  then have "dict_set k v d = d @ [(k, v)]" by (rule dict_set_new)
  moreover have "distinct (map fst ((d @ [(k, v)]) @ other))" using Cons.prems p by simp
  ultimately show ?case using Cons.IH[of "d @ [(k, v)]"] by (simp add: p dict_update_Cons)
qed

lemma dict_update_empty: "is_dict p \<Longrightarrow> dict_update [] p = p"
  using dict_update_distinct[of "[]" p] by (simp add: is_dict_def)


lemma merge_data_step:
  "merge_data json_data ((keyword, papers) # rest) =
     merge_data (dict_set keyword
        (case map_of json_data keyword of Some existing \<Rightarrow> dict_update existing papers
         | None \<Rightarrow> papers) json_data) rest"
  by (simp split: option.splits)

lemma merge_data_append: "merge_data (merge_data m a) b = merge_data m (a @ b)"
proof (induction a arbitrary: m)
  case Nil
  then show ?case by simp
next
  case (Cons p a)
  obtain k v where p: "p = (k, v)" by (cases p)
  show ?case using Cons.IH by (simp add: p)
qed

lemma merge_all_concat: "merge_all m data_dict = merge_data m (concat data_dict)"
proof (induction data_dict arbitrary: m)
  case Nil
  then show ?case by (simp add: merge_all_def)
next
  case (Cons data data_dict)
  have "merge_all m (data # data_dict) = merge_all (merge_data m data) data_dict"
    by (simp add: merge_all_def)
  then show ?case by (simp add: Cons.IH merge_data_append)
qed

lemma merge_data_keeps: "x \<in> fst ` set E \<Longrightarrow> x \<in> fst ` set (merge_data E items)"
proof (induction items arbitrary: E)
  case Nil
  then show ?case by simp
next
  case (Cons p items)
  obtain k v where p: "p = (k, v)" by (cases p)
  show ?case
    unfolding p merge_data_step
    by (rule Cons.IH) (rule dict_set_keeps[OF Cons.prems])
qed

lemma merge_data_present: "kw \<in> fst ` set items \<Longrightarrow> kw \<in> fst ` set (merge_data E items)"
proof (induction items arbitrary: E)
  case Nil
  then show ?case by simp
next
  case (Cons p items)
  obtain k v where p: "p = (k, v)" by (cases p)
  show ?case
  proof (cases "k = kw")
    case True
    show ?thesis
      unfolding p merge_data_step True
      by (rule merge_data_keeps) (rule dict_set_present)
  next
    case False
    then have "kw \<in> fst ` set items" using Cons.prems p by auto
    then show ?thesis unfolding p merge_data_step by (rule Cons.IH)
  qed
qed

lemma merge_data_keys_same:
  "fst ` set items \<subseteq> fst ` set E \<Longrightarrow> map fst (merge_data E items) = map fst E"
proof (induction items arbitrary: E)
  case Nil
  then show ?case by simp
next
  case (Cons p items)
  obtain k v where p: "p = (k, v)" by (cases p)
  let ?E' = "dict_set k (case map_of E k of Some existing \<Rightarrow> dict_update existing v | None \<Rightarrow> v) E"
  have k: "k \<in> fst ` set E" using Cons.prems p by auto
  then have keys: "map fst ?E' = map fst E" by (simp add: keys_dict_set)
  then have "fst ` set ?E' = fst ` set E" by (metis set_map)
  then have "fst ` set items \<subseteq> fst ` set ?E'" using Cons.prems by auto
  then have "map fst (merge_data ?E' items) = map fst ?E'" by (rule Cons.IH)
  then show ?case unfolding p merge_data_step using keys by simp
qed

lemma is_dict_merge_data: "is_dict E \<Longrightarrow> is_dict (merge_data E items)"
proof (induction items arbitrary: E)
  case Nil
  then show ?case by simp
next
  case (Cons p items)
  obtain k v where p: "p = (k, v)" by (cases p)
  show ?case
    unfolding p merge_data_step
    by (rule Cons.IH) (rule is_dict_dict_set[OF Cons.prems])
qed

lemma map_of_merge_data:
  "map_of (merge_data E items) kw =
     (case map snd (filter (\<lambda>x. fst x = kw) items) of
        [] \<Rightarrow> map_of E kw
      | p # ps \<Rightarrow>
          Some (case map_of E kw of
                  Some b \<Rightarrow> dict_update b (concat (p # ps))
                | None \<Rightarrow> dict_update p (concat ps)))"
proof (induction items arbitrary: E)
  case Nil
  then show ?case by simp
next
  case (Cons q items)
  obtain k v where q: "q = (k, v)" by (cases q)
  let ?X = "case map_of E k of Some existing \<Rightarrow> dict_update existing v | None \<Rightarrow> v"
  let ?E' = "dict_set k ?X E"
  have step: "merge_data E ((k, v) # items) = merge_data ?E' items"
    by (rule merge_data_step)
  show ?case
  proof (cases "k = kw")
    case False
    then have "map_of ?E' kw = map_of E kw" by (simp add: map_of_dict_set)
    then show ?thesis
      using False Cons.IH[of ?E']
      by (simp add: step q del: merge_data.simps cong: list.case_cong)
  next
    case True
    have E': "map_of ?E' kw = Some ?X" using True by (simp add: map_of_dict_set)
    show ?thesis
    proof (cases "map snd (filter (\<lambda>x. fst x = kw) items)")
      case Nil
      then show ?thesis
        using True E' Cons.IH[of ?E']
        by (simp add: step[unfolded True] q dict_update_Nil del: merge_data.simps
            split: option.splits)
    next
      case (Cons p ps)
      then show ?thesis
        using True E' Cons.IH[of ?E']
        by (simp add: step[unfolded True] q dict_update_append del: merge_data.simps
            split: option.splits)
    qed
  qed
qed

lemma assoc_eqI:
  "map fst xs = map fst ys \<Longrightarrow> distinct (map fst xs) \<Longrightarrow>
     (\<forall>k \<in> fst ` set xs. map_of xs k = map_of ys k) \<Longrightarrow> xs = ys"
proof (induction xs arbitrary: ys)
  case Nil
  then show ?case by simp
next
  case (Cons x xs)
  obtain y ys' where ys: "ys = y # ys'" using Cons.prems(1) by (cases ys) auto
  have fst: "fst x = fst y" "map fst xs = map fst ys'" using Cons.prems(1) ys by auto
  have "map_of (x # xs) (fst x) = map_of ys (fst x)" using Cons.prems(3) by simp
  then have snd: "snd x = snd y" using fst ys by (cases x; cases y) auto
  have "\<forall>k \<in> fst ` set xs. map_of xs k = map_of ys' k"
  proof
    fix k assume k: "k \<in> fst ` set xs"
    moreover have "fst x \<notin> fst ` set xs" using Cons.prems(2) by simp
    ultimately have "k \<noteq> fst x" by blast
    have "k \<in> fst ` set (x # xs)" using k by simp
    then have "map_of (x # xs) k = map_of ys k" using Cons.prems(3) by blast
    with \<open>k \<noteq> fst x\<close> show "map_of xs k = map_of ys' k" using fst ys by (cases x; cases y) auto
  qed
  then have "xs = ys'" using Cons.IH[of ys'] fst Cons.prems(2) by simp
  then show ?case using fst snd ys by (cases x; cases y) auto
qed

lemma merge_data_idem:
  assumes "is_dict m" and "list_all (\<lambda>(keyword, papers). is_dict papers) items"
  shows "merge_data (merge_data m items) items = merge_data m items"
proof (rule assoc_eqI)
  let ?E = "merge_data m items"
  have sub: "fst ` set items \<subseteq> fst ` set ?E"
    using merge_data_present by fastforce
  then show "map fst (merge_data ?E items) = map fst ?E"
    by (rule merge_data_keys_same)
  have "is_dict (merge_data ?E items)"
    by (intro is_dict_merge_data assms(1))
  then show "distinct (map fst (merge_data ?E items))"
    by (simp add: is_dict_def)
  show "\<forall>kw \<in> fst ` set (merge_data ?E items). map_of (merge_data ?E items) kw = map_of ?E kw"
  proof
    fix kw assume "kw \<in> fst ` set (merge_data ?E items)"
    show "map_of (merge_data ?E items) kw = map_of ?E kw"
    proof (cases "map snd (filter (\<lambda>x. fst x = kw) items)")
      case Nil
      then show ?thesis by (simp add: map_of_merge_data[of ?E])
    next
      case (Cons p ps)
      have "p \<in> snd ` set items"
        by (metis (no_types, lifting) Cons filter_is_subset image_mono list.set_intros(1) set_map subsetD)
      then have dp: "is_dict p"
        using assms(2) by (auto simp: list_all_iff)
      obtain b' where b': "map_of ?E kw = Some b'"
        and stable: "dict_update b' (concat (p # ps)) = b'"
      proof (cases "map_of m kw")
        case None
        have "dict_update p (concat ps) = dict_update [] (concat (p # ps))"
          using dict_update_empty[OF dp] by (simp add: dict_update_append)
        then have "dict_update (dict_update p (concat ps)) (concat (p # ps)) = dict_update p (concat ps)"
          by (simp only: dict_update_idem)
        then show ?thesis
          using Cons None that[of "dict_update p (concat ps)"] by (simp add: map_of_merge_data[of m])
      next
        case (Some b)
        then show ?thesis
          using Cons that[of "dict_update b (concat (p # ps))"]
          by (simp add: map_of_merge_data[of m] dict_update_idem)
      qed
      then show ?thesis using Cons by (simp add: map_of_merge_data[of ?E])
    qed
  qed
qed

text \<open>
  Claim C7. Harvest-merge is idempotent: merging the same batch a second time leaves the
  store as the first merge left it, so \<open>json.dump\<close> writes the same text, and a second
  \<open>update_json_file\<close> with the same batch leaves the file system unchanged. The store
  and the buckets of the batch are dicts (every key once).
\<close>

theorem harvest_merge_idempotent:
  assumes "wf_store m" and "list_all wf_store data_dict"
  shows "merge_all (merge_all m data_dict) data_dict = merge_all m data_dict \<and>
         json_dump (merge_all (merge_all m data_dict) data_dict) =
           json_dump (merge_all m data_dict) \<and>
         (load_store files filename = Inr m \<longrightarrow>
            (\<exists>files1. update_json_file files filename data_dict = Inr files1 \<and>
                      update_json_file files1 filename data_dict = Inr files1))"
proof -
  have "list_all (\<lambda>(keyword, papers). is_dict papers) (concat data_dict)"
    using assms(2) by (auto simp: list_all_iff wf_store_def)
  moreover have "is_dict m"
    using assms(1) by (simp add: wf_store_def)
  ultimately have idem: "merge_all (merge_all m data_dict) data_dict = merge_all m data_dict"
    by (simp add: merge_all_concat merge_data_idem)
  have "load_store files filename = Inr m \<longrightarrow>
          (\<exists>files1. update_json_file files filename data_dict = Inr files1 \<and>
                    update_json_file files1 filename data_dict = Inr files1)"
  proof
    assume l: "load_store files filename = Inr m"
    let ?files1 = "files(filename \<mapsto> JsonDoc (merge_all m data_dict))"
    have 1: "update_json_file files filename data_dict = Inr ?files1"
      using l by (simp add: update_json_file_def)
    have "load_store ?files1 filename = Inr (merge_all m data_dict)"
      by (simp add: load_store_def)
    then have 2: "update_json_file ?files1 filename data_dict = Inr ?files1"
      by (simp add: update_json_file_def idem)
    show "\<exists>files1. update_json_file files filename data_dict = Inr files1 \<and>
                   update_json_file files1 filename data_dict = Inr files1"
      using 1 2 by blast
  qed
  then show ?thesis using idem by simp
qed

theorem harvest_merge_idempotent_witness:
  "wf_store [(''nerf'', [(''2401.00001'', ''|old|'')])] \<and>
   list_all wf_store
     [[(''nerf'', [(''2401.00001'', ''|new|''), (''2401.00002'', ''|b|'')])],
      [(''ocr'', [(''2401.00003'', ''|c|'')])]] \<and>
   merge_all [(''nerf'', [(''2401.00001'', ''|old|'')])]
     [[(''nerf'', [(''2401.00001'', ''|new|''), (''2401.00002'', ''|b|'')])],
      [(''ocr'', [(''2401.00003'', ''|c|'')])]] =
     [(''nerf'', [(''2401.00001'', ''|new|''), (''2401.00002'', ''|b|'')]),
      (''ocr'', [(''2401.00003'', ''|c|'')])] \<and>
   merge_all
     (merge_all [(''nerf'', [(''2401.00001'', ''|old|'')])]
        [[(''nerf'', [(''2401.00001'', ''|new|''), (''2401.00002'', ''|b|'')])],
         [(''ocr'', [(''2401.00003'', ''|c|'')])]])
     [[(''nerf'', [(''2401.00001'', ''|new|''), (''2401.00002'', ''|b|'')])],
      [(''ocr'', [(''2401.00003'', ''|c|'')])]] =
     [(''nerf'', [(''2401.00001'', ''|new|''), (''2401.00002'', ''|b|'')]),
      (''ocr'', [(''2401.00003'', ''|c|'')])]"
proof -
  have wf: "wf_store [(''nerf'', [(''2401.00001'', ''|old|'')])]"
    by (simp add: wf_store_def is_dict_def)
  have wfs: "list_all wf_store
     [[(''nerf'', [(''2401.00001'', ''|new|''), (''2401.00002'', ''|b|'')])],
      [(''ocr'', [(''2401.00003'', ''|c|'')])]]"
    by (simp add: wf_store_def is_dict_def)
  have first: "merge_all [(''nerf'', [(''2401.00001'', ''|old|'')])]
     [[(''nerf'', [(''2401.00001'', ''|new|''), (''2401.00002'', ''|b|'')])],
      [(''ocr'', [(''2401.00003'', ''|c|'')])]] =
     [(''nerf'', [(''2401.00001'', ''|new|''), (''2401.00002'', ''|b|'')]),
      (''ocr'', [(''2401.00003'', ''|c|'')])]"
    by (simp add: merge_all_def dict_update_def)
  show ?thesis
    using wf wfs first harvest_merge_idempotent[OF wf wfs]
    by simp
qed

subsection \<open>Records and their code links\<close>

lemma str_split_nonempty: "str_split sep s \<noteq> []"
  by (induction s) (auto split: list.splits)

lemma str_split_no_sep: "sep \<notin> set s \<Longrightarrow> str_split sep s = [s]"
  by (induction s) auto

lemma str_split_field:
  "sep \<notin> set f \<Longrightarrow> str_split sep (f @ sep # rest) = f # str_split sep rest"
  by (induction f) auto

lemma str_split_parts: "p \<in> set (str_split sep s) \<Longrightarrow> sep \<notin> set p"
proof (induction s arbitrary: p)
  case Nil
  then show ?case by simp
next
  case (Cons c cs)
  show ?case
  proof (cases "c = sep")
    case True
    then show ?thesis using Cons by auto
  next
    case False
    obtain q qs where q: "str_split sep cs = q # qs"
      using str_split_nonempty[of sep cs] by (cases "str_split sep cs") auto
    then have "p = c # q \<or> p \<in> set qs" using Cons.prems False by simp
    then show ?thesis using Cons.IH[of q] Cons.IH[of p] q False by auto
  qed
qed

lemma set_str_strip: "set (str_strip s) \<subseteq> set s"
proof -
  have "set (dropWhile is_space (rev (dropWhile is_space s))) \<subseteq> set (rev (dropWhile is_space s))"
    by (rule set_dropWhileD[THEN subsetI])
  also have "\<dots> \<subseteq> set s" using set_dropWhileD by fastforce
  finally show ?thesis by (simp add: str_strip_def)
qed

lemma set_re_sub_version: "set (re_sub_version s) \<subseteq> set s"
proof (induction s rule: re_sub_version.induct)
  case 1
  then show ?case by simp
next
  case (2 c cs)
  show ?case
  proof (cases "c = CHR ''v'' \<and> cs \<noteq> [] \<and> is_digit (hd cs)")
    case True
    then have "set (re_sub_version (c # cs)) \<subseteq> set (dropWhile is_digit cs)"
      using 2 by simp
    also have "\<dots> \<subseteq> set cs" using set_dropWhileD by fastforce
    finally show ?thesis by auto
  next
    case False
    then show ?thesis using 2 by auto
  qed
qed

lemma str_strip_idem: "str_strip (str_strip s) = str_strip s"
proof -
  define z where "z = dropWhile is_space s"
  define y where "y = rev (dropWhile is_space (rev z))"
  have y: "str_strip s = y" by (simp add: str_strip_def y_def z_def)
  have "dropWhile is_space y = y \<and> dropWhile is_space (rev y) = rev y"
  proof (cases "dropWhile is_space (rev z) = []")
    case True
    show ?thesis unfolding y_def True by simp
  next
    case False
    then have hd_last: "\<not> is_space (hd (dropWhile is_space (rev z)))"
      by (rule hd_dropWhile)
    have "rev z = takeWhile is_space (rev z) @ dropWhile is_space (rev z)" by simp
    then have "z = y @ rev (takeWhile is_space (rev z))"
      by (metis rev_append rev_rev_ident y_def)
    moreover have "y \<noteq> []" using False by (simp add: y_def)
    ultimately have "hd y = hd z" and "z \<noteq> []" by (metis hd_append2, auto)
    moreover have "\<not> is_space (hd z)"
      using \<open>z \<noteq> []\<close> unfolding z_def by (rule hd_dropWhile)
    ultimately have "dropWhile is_space y = y"
      using \<open>y \<noteq> []\<close> by (cases y) auto
    moreover have "dropWhile is_space (rev y) = rev y"
      using hd_last False by (cases "dropWhile is_space (rev z)") (auto simp: y_def)
    ultimately show ?thesis by simp
  qed
  then have "str_strip y = y" by (simp add: str_strip_def)
  then show ?thesis by (simp only: y)
qed


lemma parse_format:
  assumes "CHR ''|'' \<notin> set d" "CHR ''|'' \<notin> set t" "CHR ''|'' \<notin> set i"
    "CHR ''|'' \<notin> set c" "CHR ''|'' \<notin> set a"
  shows "parse_arxiv_string (format_contents d t i c a) =
     Inr (str_strip d, str_strip t, re_sub_version (str_strip i), str_strip c, str_strip a)"
proof -
  have nl: "str_split (CHR ''|'') [newline] = [[newline]]"
    by (simp add: newline_def)
  have "format_contents d t i c a =
      [] @ CHR ''|'' # d @ CHR ''|'' # t @ CHR ''|'' # i @ CHR ''|'' # c @ CHR ''|'' # a @
      CHR ''|'' # [newline]"
    by (simp add: format_contents_def)
  then have "str_split (CHR ''|'') (format_contents d t i c a) = [[], d, t, i, c, a, [newline]]"
    using assms by (simp only: str_split_field nl empty_iff list.set not_False_eq_True)
  then show ?thesis
    by (simp add: parse_arxiv_string_def index_at_def Let_def)
qed

lemma parse_fields:
  assumes "parse_arxiv_string s = Inr (d, t, i, c, a)"
  shows "CHR ''|'' \<notin> set d \<and> CHR ''|'' \<notin> set t \<and> CHR ''|'' \<notin> set i \<and>
         CHR ''|'' \<notin> set c \<and> CHR ''|'' \<notin> set a \<and>
         str_strip d = d \<and> str_strip t = t \<and> str_strip c = c \<and> str_strip a = a"
proof -
  let ?parts = "str_split (CHR ''|'') s"
  have len: "5 < length ?parts"
    using assms by (auto simp: parse_arxiv_string_def index_at_def Let_def split: if_splits)
  then have eq: "d = str_strip (?parts ! 1)" "t = str_strip (?parts ! 2)"
    "i = re_sub_version (str_strip (?parts ! 3))" "c = str_strip (?parts ! 4)"
    "a = str_strip (?parts ! 5)"
    using assms by (auto simp: parse_arxiv_string_def index_at_def Let_def split: if_splits)
  have no: "\<And>n. n < length ?parts \<Longrightarrow> CHR ''|'' \<notin> set (?parts ! n)"
    by (meson nth_mem str_split_parts)
  have "CHR ''|'' \<notin> set (?parts ! 1)" "CHR ''|'' \<notin> set (?parts ! 2)"
    "CHR ''|'' \<notin> set (?parts ! 3)" "CHR ''|'' \<notin> set (?parts ! 4)"
    "CHR ''|'' \<notin> set (?parts ! 5)"
    using len by (auto intro!: no)
  then have "CHR ''|'' \<notin> set d" "CHR ''|'' \<notin> set t" "CHR ''|'' \<notin> set i"
    "CHR ''|'' \<notin> set c" "CHR ''|'' \<notin> set a"
    using eq set_str_strip set_re_sub_version by blast+
  then show ?thesis using eq by (simp add: str_strip_idem)
qed

lemma repair_record_linked:
  assumes "linked contents0"
  shows "\<exists>contents. repair_record env paper_id contents0 w = Inr (contents, w) \<and>
           code_field contents = code_field contents0"
proof -
  obtain d t i c a where p: "parse_arxiv_string contents0 = Inr (d, t, i, c, a)"
    using assms by (auto simp: linked_def split: sum.splits)
  then have v: "valid_link (format_contents d t i c a)"
    using assms by (simp add: linked_def)
  have f: "CHR ''|'' \<notin> set d" "CHR ''|'' \<notin> set t" "CHR ''|'' \<notin> set i"
    "CHR ''|'' \<notin> set c" "CHR ''|'' \<notin> set a" "str_strip c = c"
    using parse_fields[OF p] by simp_all
  have "repair_record env paper_id contents0 w = Inr (format_contents d t i c a, w)"
    using p v by (simp add: repair_record_def)
  moreover have "code_field (format_contents d t i c a) = Some c"
    using f by (simp add: code_field_def parse_format)
  moreover have "code_field contents0 = Some c"
    using p by (simp add: code_field_def)
  ultimately show ?thesis by simp
qed

lemma repair_bucket_linked:
  assumes "repair_bucket env b w = Inr (b', w')" and "map_of b k = Some contents0"
    and "linked contents0"
  shows "\<exists>contents. map_of b' k = Some contents \<and> code_field contents = code_field contents0"
  using assms
proof (induction b arbitrary: b' w)
  case Nil
  then show ?case by simp
next
  case (Cons x b)
  obtain paper_id c0 where x: "x = (paper_id, c0)" by (cases x)
  obtain c1 w1 where r1: "repair_record env paper_id c0 w = Inr (c1, w1)"
    using Cons.prems(1) by (auto simp: x split: sum.splits)
  obtain rest' where r2: "repair_bucket env b w1 = Inr (rest', w')" and b': "b' = (paper_id, c1) # rest'"
    using Cons.prems(1) r1 by (auto simp: x split: sum.splits)
  show ?case
  proof (cases "paper_id = k")
    case True
    then have "c0 = contents0" using Cons.prems(2) x by simp
    then have "code_field c1 = code_field contents0"
      using repair_record_linked[OF Cons.prems(3), of env paper_id w] r1 by auto
    then show ?thesis using True b' by simp
  next
    case False
    then have "map_of b k = Some contents0" using Cons.prems(2) x by simp
    from Cons.IH[OF r2 this Cons.prems(3)] show ?thesis using False b' by simp
  qed
qed

lemma repair_store_linked:
  assumes "repair_store env m w = Inr (m', w')" and "map_of m kw = Some b"
    and "map_of b k = Some contents0" and "linked contents0"
  shows "\<exists>b' contents. map_of m' kw = Some b' \<and> map_of b' k = Some contents \<and>
           code_field contents = code_field contents0"
  using assms
proof (induction m arbitrary: m' w)
  case Nil
  then show ?case by simp
next
  case (Cons x m)
  obtain topic v where x: "x = (topic, v)" by (cases x)
  obtain v' w1 where r1: "repair_bucket env v w = Inr (v', w1)"
    using Cons.prems(1) by (auto simp: x split: sum.splits)
  obtain rest' where r2: "repair_store env m w1 = Inr (rest', w')" and m': "m' = (topic, v') # rest'"
    using Cons.prems(1) r1 by (auto simp: x split: sum.splits)
  show ?case
  proof (cases "topic = kw")
    case True
    then have "v = b" using Cons.prems(2) x by simp
    then show ?thesis
      using repair_bucket_linked[OF r1 _ Cons.prems(4), of k] Cons.prems(3) True m' by auto
  next
    case False
    then have "map_of m kw = Some b" using Cons.prems(2) x by simp
    from Cons.IH[OF r2 this Cons.prems(3,4)] show ?thesis using False m' by simp
  qed
qed

lemma map_of_dict_update:
  "map_of (dict_update b other) k =
     (case map_of (rev other) k of Some v \<Rightarrow> Some v | None \<Rightarrow> map_of b k)"
proof (induction other arbitrary: b)
  case Nil
  then show ?case by (simp add: dict_update_Nil)
next
  case (Cons p other)
  obtain k' v where p: "p = (k', v)" by (cases p)
  show ?case
    using Cons.IH[of "dict_set k' v b"]
    by (simp add: p dict_update_Cons map_of_dict_set map_add_def split: option.splits)
qed

lemma map_of_merge_all:
  assumes "map_of m kw = Some b"
  shows "map_of (merge_all m data_dict) kw = Some (dict_update b (incoming kw data_dict))"
  using assms
  by (simp add: merge_all_concat map_of_merge_data incoming_def dict_update_Nil split: list.splits)


text \<open>
  Claim C1, as the code has it. A harvest merge stores, for every key of a topic bucket,
  the last incoming record for that key if the batch has one, whatever the stored
  record and its code link were, and leaves the stored record as it is when the batch
  has none. A repair merge keeps the code field of every record that
  \<open>update_paper_links\<close> takes to be linked.
\<close>

theorem merge_link_kept_or_replaced:
  "(map_of m kw = Some b \<longrightarrow>
      (\<exists>b'. map_of (merge_all m data_dict) kw = Some b' \<and>
            (\<forall>k. map_of b' k =
                   (case map_of (rev (incoming kw data_dict)) k of
                      Some v \<Rightarrow> Some v
                    | None \<Rightarrow> map_of b k)))) \<and>
   (repair_store env m w = Inr (m', w') \<and> map_of m kw = Some b \<and>
    map_of b k = Some contents0 \<and> linked contents0 \<longrightarrow>
      (\<exists>b' contents. map_of m' kw = Some b' \<and> map_of b' k = Some contents \<and>
         code_field contents = code_field contents0))"
proof -
  have harvest: "map_of m kw = Some b \<longrightarrow>
      (\<exists>b'. map_of (merge_all m data_dict) kw = Some b' \<and>
            (\<forall>k. map_of b' k =
                   (case map_of (rev (incoming kw data_dict)) k of
                      Some v \<Rightarrow> Some v
                    | None \<Rightarrow> map_of b k)))"
    by (simp add: map_of_merge_all map_of_dict_update)
  have repair: "repair_store env m w = Inr (m', w') \<and> map_of m kw = Some b \<and>
    map_of b k = Some contents0 \<and> linked contents0 \<longrightarrow>
      (\<exists>b' contents. map_of m' kw = Some b' \<and> map_of b' k = Some contents \<and>
         code_field contents = code_field contents0)"
    using repair_store_linked by blast
  show ?thesis using harvest repair by blast
qed

theorem merge_link_counterexample:
  "linked (content_line ''2024-01-01'' ''T'' ''2401.00001'' ''http://arxiv.org/abs/2401.00001''
             (Some ''https://github.com/a/b'') ''A.'') \<and>
   code_field (content_line ''2024-01-01'' ''T'' ''2401.00001'' ''http://arxiv.org/abs/2401.00001''
             (Some ''https://github.com/a/b'') ''A.'') = Some ''**[link](https://github.com/a/b)**'' \<and>
   merge_all
     [(''nerf'', [(''2401.00001'',
        content_line ''2024-01-01'' ''T'' ''2401.00001'' ''http://arxiv.org/abs/2401.00001''
          (Some ''https://github.com/a/b'') ''A.'')])]
     [[(''nerf'', [(''2401.00001'',
        content_line ''2024-01-02'' ''T'' ''2401.00001'' ''http://arxiv.org/abs/2401.00001''
          None ''A.'')])]] =
     [(''nerf'', [(''2401.00001'',
        content_line ''2024-01-02'' ''T'' ''2401.00001'' ''http://arxiv.org/abs/2401.00001''
          None ''A.'')])] \<and>
   code_field (content_line ''2024-01-02'' ''T'' ''2401.00001'' ''http://arxiv.org/abs/2401.00001''
             None ''A.'') = Some ''null''"
proof -
  have 1: "linked (content_line ''2024-01-01'' ''T'' ''2401.00001'' ''http://arxiv.org/abs/2401.00001''
             (Some ''https://github.com/a/b'') ''A.'')"
    by code_simp
  have 2: "code_field (content_line ''2024-01-01'' ''T'' ''2401.00001'' ''http://arxiv.org/abs/2401.00001''
             (Some ''https://github.com/a/b'') ''A.'') = Some ''**[link](https://github.com/a/b)**''"
    by code_simp
  have 3: "code_field (content_line ''2024-01-02'' ''T'' ''2401.00001'' ''http://arxiv.org/abs/2401.00001''
             None ''A.'') = Some ''null''"
    by code_simp
  have 4: "merge_all
     [(''nerf'', [(''2401.00001'',
        content_line ''2024-01-01'' ''T'' ''2401.00001'' ''http://arxiv.org/abs/2401.00001''
          (Some ''https://github.com/a/b'') ''A.'')])]
     [[(''nerf'', [(''2401.00001'',
        content_line ''2024-01-02'' ''T'' ''2401.00001'' ''http://arxiv.org/abs/2401.00001''
          None ''A.'')])]] =
     [(''nerf'', [(''2401.00001'',
        content_line ''2024-01-02'' ''T'' ''2401.00001'' ''http://arxiv.org/abs/2401.00001''
          None ''A.'')])]"
    by (simp add: merge_all_def dict_update_def)
  show ?thesis using 1 2 3 4 by blast
qed

theorem merge_link_kept_or_replaced_witness:
  "map_of [(''nerf'', [(''2401.00001'',
        content_line ''2024-01-01'' ''T'' ''2401.00001'' ''http://arxiv.org/abs/2401.00001''
          (Some ''https://github.com/a/b'') ''A.'')])] ''nerf'' =
     Some [(''2401.00001'',
        content_line ''2024-01-01'' ''T'' ''2401.00001'' ''http://arxiv.org/abs/2401.00001''
          (Some ''https://github.com/a/b'') ''A.'')] \<and>
   linked (content_line ''2024-01-01'' ''T'' ''2401.00001'' ''http://arxiv.org/abs/2401.00001''
             (Some ''https://github.com/a/b'') ''A.'') \<and>
   repair_store \<lparr>search = (\<lambda>q n. Inr []), registry = (\<lambda>n u. Inr None)\<rparr>
     [(''nerf'', [(''2401.00001'',
        content_line ''2024-01-01'' ''T'' ''2401.00001'' ''http://arxiv.org/abs/2401.00001''
          (Some ''https://github.com/a/b'') ''A.'')])]
     \<lparr>calls = 0, slept = [], requests = []\<rparr> =
     Inr ([(''nerf'', [(''2401.00001'',
        content_line ''2024-01-01'' ''T'' ''2401.00001'' ''http://arxiv.org/abs/2401.00001''
          (Some ''https://github.com/a/b'') ''A.'')])],
          \<lparr>calls = 0, slept = [], requests = []\<rparr>) \<and>
   (\<exists>b'. map_of (merge_all
        [(''nerf'', [(''2401.00001'',
          content_line ''2024-01-01'' ''T'' ''2401.00001'' ''http://arxiv.org/abs/2401.00001''
            (Some ''https://github.com/a/b'') ''A.'')])]
        [[(''nerf'', [(''2401.00002'', ''|x|'')])]]) ''nerf'' = Some b' \<and>
      map_of b' ''2401.00001'' =
        Some (content_line ''2024-01-01'' ''T'' ''2401.00001'' ''http://arxiv.org/abs/2401.00001''
               (Some ''https://github.com/a/b'') ''A.''))"
proof -
  let ?line = "content_line ''2024-01-01'' ''T'' ''2401.00001'' ''http://arxiv.org/abs/2401.00001''
          (Some ''https://github.com/a/b'') ''A.''"
  let ?env = "\<lparr>search = (\<lambda>q n. Inr []), registry = (\<lambda>n u. Inr None)\<rparr>"
  let ?w = "\<lparr>calls = 0, slept = [], requests = []\<rparr>"
  have 1: "map_of [(''nerf'', [(''2401.00001'', ?line)])] ''nerf'' = Some [(''2401.00001'', ?line)]"
    by simp
  have 2: "linked ?line"
    by code_simp
  have 3: "repair_store ?env [(''nerf'', [(''2401.00001'', ?line)])] ?w =
      Inr ([(''nerf'', [(''2401.00001'', ?line)])], ?w)"
    by code_simp
  have 4: "incoming ''nerf'' [[(''nerf'', [(''2401.00002'', ''|x|'')])]] = [(''2401.00002'', ''|x|'')]"
    by (simp add: incoming_def)
  show ?thesis
    using 1 2 3
      merge_link_kept_or_replaced[of "[(''nerf'', [(''2401.00001'', ?line)])]" "''nerf''"
        "[(''2401.00001'', ?line)]" "[[(''nerf'', [(''2401.00002'', ''|x|'')])]]" ?env ?w
        "[(''nerf'', [(''2401.00001'', ?line)])]" ?w "''2401.00001''" ?line]
    by (auto simp: 4)
qed

subsection \<open>A failing registry lookup\<close>

lemma translate_loop_requests:
  "requests (snd (translate_loop tr a rc rs res w)) = requests w"
proof (induction tr a rc rs res w rule: translate_loop.induct)
  case (1 tr a retry_count retry_seconds result w)
  show ?case
  proof (cases "retry_count < NUM_RETRIES")
    case False
    then show ?thesis by (subst translate_loop.simps) simp
  next
    case True
    show ?thesis
    proof (cases "tr (calls w) (translate_prompt a)")
      case (Inr r)
      then show ?thesis using True by (subst translate_loop.simps) simp
    next
      case (Inl e)
      show ?thesis
        apply (subst translate_loop.simps)
        using True Inl "1.IH"[OF True Inl refl refl refl refl]
        apply (simp add: Let_def)
        done
    qed
  qed
qed

lemma translate_requests: "requests (snd (translate tr a w)) = requests w"
  using translate_loop_requests[of tr a 0 1 None w]
  by (auto simp: translate_def split: prod.splits option.splits)

lemma abstract_loop_requests:
  "requests (snd (abstract_loop tr a rc rs w)) = requests w"
proof (induction tr a rc rs w rule: abstract_loop.induct)
  case (1 tr paper_abstract retry_count retry_seconds w)
  show ?case
  proof (cases "retry_count < NUM_RETRIES")
    case False
    then show ?thesis by (subst abstract_loop.simps) simp
  next
    case True
    obtain res w' where t: "translate tr paper_abstract w = (res, w')"
      by (cases "translate tr paper_abstract w")
    have w': "requests w' = requests w"
      using translate_requests[of tr paper_abstract w] t by simp
    show ?thesis
    proof (cases res)
      case (Inr x)
      then show ?thesis using True t w' by (subst abstract_loop.simps) simp
    next
      case (Inl e)
      show ?thesis
        apply (subst abstract_loop.simps)
        using True t Inl w' "1.IH"[OF True t[symmetric, unfolded Inl] refl]
        apply simp
        done
    qed
  qed
qed

text \<open>
  Claim C2, as the code has it. For a harvested paper with at least one author, a
  registry lookup that fails is one request and is not tried again; the exception is
  caught, \<open>content\<close> and \<open>content_to_web\<close> stay as they were, so the paper has no
  record in what this run returns, and the loop goes on with the next result.
\<close>

theorem lookup_failure_omits_paper:
  assumes "authors r \<noteq> []"
    and "registry env (length (requests w)) (base_url @ short_id r) = Inl e"
  shows "\<exists>w'. harvest_paper translater env r (content, content_to_web, w) =
                Inr (content, content_to_web, w') \<and>
              requests w' = requests w @ [base_url @ short_id r] \<and>
              (translater = None \<longrightarrow> w' = w\<lparr>requests := requests w @ [base_url @ short_id r]\<rparr>) \<and>
              harvest_loop translater env (r # results) (content, content_to_web, w) =
                harvest_loop translater env results (content, content_to_web, w')"
proof -
  obtain au where au: "first_author (authors r) = Inr au"
    using assms(1) by (cases "authors r") (simp_all add: first_author_def index_first_def)
  define a0 where "a0 = str_replace [newline] '' '' (summary r)"
  define st where "st = (case translater of Some tr \<Rightarrow> abstract_loop tr a0 0 10 w | None \<Rightarrow> (a0, w))"
  obtain a w1 where st1: "st = (a, w1)" by (cases st)
  have rq: "requests w1 = requests w"
  proof (cases translater)
    case None
    then show ?thesis using st1 by (simp add: st_def)
  next
    case (Some tr)
    then show ?thesis using st1 abstract_loop_requests[of tr a0 0 10 w] by (simp add: st_def)
  qed
  let ?w' = "w1\<lparr>requests := requests w1 @ [base_url @ short_id r]\<rparr>"
  have l: "lookup env (base_url @ short_id r) w1 = (Inl e, ?w')"
    using assms(2) rq by (simp add: lookup_def)
  have h: "harvest_paper translater env r (content, content_to_web, w) =
      Inr (content, content_to_web, ?w')"
    using au st1 l by (simp add: harvest_paper_def Let_def a0_def[symmetric] st_def[symmetric])
  moreover have "requests ?w' = requests w @ [base_url @ short_id r]"
    using rq by simp
  moreover have "translater = None \<longrightarrow> ?w' = w\<lparr>requests := requests w @ [base_url @ short_id r]\<rparr>"
    using st1 by (auto simp: st_def)
  moreover have "harvest_loop translater env (r # results) (content, content_to_web, w) =
      harvest_loop translater env results (content, content_to_web, ?w')"
    using h by simp
  ultimately show ?thesis by blast
qed


theorem lookup_failure_counterexample:
  "get_daily_papers None
     \<lparr>search = (\<lambda>q n. Inr [\<lparr>short_id = ''2401.00001v1'', title = ''T'', summary = ''A.'',
                                authors = [''A. Author''], updated = ''2024-01-01''\<rparr>]),
      registry = (\<lambda>n u. Inl (ServiceError ''timeout''))\<rparr>
     ''nerf'' ''abs:nerf'' 1 \<lparr>calls = 0, slept = [], requests = []\<rparr> =
   Inr ([(''nerf'', [])], [(''nerf'', [])],
        \<lparr>calls = 0, slept = [],
          requests = [''https://arxiv.paperswithcode.com/api/v0/papers/2401.00001v1'']\<rparr>)"
  by (simp add: get_daily_papers_def harvest_paper_def first_author_def index_first_def
      lookup_def base_url_def Let_def)

theorem lookup_failure_omits_paper_witness:
  "authors \<lparr>short_id = ''2401.00001v1'', title = ''T'', summary = ''A.'',
            authors = [''A. Author''], updated = ''2024-01-01''\<rparr> \<noteq> [] \<and>
   registry \<lparr>search = (\<lambda>q n. Inr []), registry = (\<lambda>n u. Inl (ServiceError ''timeout''))\<rparr>
     (length (requests \<lparr>calls = 0, slept = [], requests = []\<rparr>))
     (base_url @ short_id \<lparr>short_id = ''2401.00001v1'', title = ''T'', summary = ''A.'',
            authors = [''A. Author''], updated = ''2024-01-01''\<rparr>) = Inl (ServiceError ''timeout'') \<and>
   harvest_paper None
     \<lparr>search = (\<lambda>q n. Inr []), registry = (\<lambda>n u. Inl (ServiceError ''timeout''))\<rparr>
     \<lparr>short_id = ''2401.00001v1'', title = ''T'', summary = ''A.'',
       authors = [''A. Author''], updated = ''2024-01-01''\<rparr>
     ([(''2312.00007'', ''|x|'')], [(''2312.00007'', ''- x'')],
      \<lparr>calls = 0, slept = [], requests = []\<rparr>) =
   Inr ([(''2312.00007'', ''|x|'')], [(''2312.00007'', ''- x'')],
        \<lparr>calls = 0, slept = [], requests = [base_url @ ''2401.00001v1'']\<rparr>)"
  using lookup_failure_omits_paper[of
      "\<lparr>short_id = ''2401.00001v1'', title = ''T'', summary = ''A.'',
         authors = [''A. Author''], updated = ''2024-01-01''\<rparr>"
      "\<lparr>search = (\<lambda>q n. Inr []), registry = (\<lambda>n u. Inl (ServiceError ''timeout''))\<rparr>"
      "\<lparr>calls = 0, slept = [], requests = []\<rparr>" "ServiceError ''timeout''" None
      "[(''2312.00007'', ''|x|'')]" "[(''2312.00007'', ''- x'')]" "[]"]
  by auto

subsection \<open>Loading the store file\<close>

lemma load_failure_update_json_file:
  "load_store files filename = Inl e \<Longrightarrow> update_json_file files filename data_dict = Inl e"
  by (simp add: update_json_file_def)

lemma load_failure_update_paper_links:
  "load_store files filename = Inl e \<Longrightarrow> update_paper_links env files filename w = Inl e"
  by (simp add: update_paper_links_def)

lemma load_failure_json_to_md:
  "load_store files filename = Inl e \<Longrightarrow>
     json_to_md today files filename md_filename to_web use_title use_tc use_b2t = Inl e"
  by (simp add: json_to_md_def Let_def)

lemma load_failure_publish:
  "load_store files json_file = Inl e \<Longrightarrow>
     publish env cfg today data_collector json_file md_file to_web use_tc use_b2t (files, w) = Inl e"
  by (simp add: publish_def load_failure_update_json_file load_failure_update_paper_links)

lemma load_failure_demo:
  assumes "publish_readme cfg" and "load_store files (json_readme_path cfg) = Inl e"
  shows "\<exists>e'. demo translater env cfg today files w = Inl e'"
proof (cases "if \<not> update_links cfg
            then collect translater env (max_results cfg) (kv cfg) ([], [], w)
            else Inr ([], [], w)")
  case (Inl e')
  then show ?thesis by (simp add: demo_def)
next
  case (Inr st)
  obtain dc dcw w' where st: "st = (dc, dcw, w')" by (cases st)
  show ?thesis
    using Inr st assms by (simp add: demo_def load_failure_publish)
qed

text \<open>
  Claim C3, as the code has it. Only a file that exists and is empty loads as the empty
  store. A file that does not exist raises FileNotFoundError and a non-empty file that
  is not JSON raises JSONDecodeError; neither is caught by \<open>update_json_file\<close>,
  \<open>update_paper_links\<close> or \<open>json_to_md\<close>, and \<open>demo\<close> ends with an exception when
  the store file of the readme target is such a file.
\<close>

theorem bad_store_file_is_fatal:
  "(files filename = None \<longrightarrow> load_store files filename = Inl FileNotFoundError) \<and>
   (files filename = Some (Text []) \<longrightarrow> load_store files filename = Inr []) \<and>
   (\<forall>content. files filename = Some (Text content) \<and> content \<noteq> [] \<longrightarrow>
      load_store files filename = Inl JSONDecodeError) \<and>
   (\<forall>e. load_store files filename = Inl e \<longrightarrow>
      update_json_file files filename data_dict = Inl e \<and>
      update_paper_links env files filename w = Inl e \<and>
      json_to_md today files filename md_filename to_web use_title use_tc use_b2t = Inl e \<and>
      publish env cfg today data_collector filename md_filename to_web use_tc use_b2t (files, w) =
        Inl e) \<and>
   (\<forall>e. publish_readme cfg \<and> load_store files (json_readme_path cfg) = Inl e \<longrightarrow>
      (\<exists>e'. demo translater env cfg today files w = Inl e'))"
proof -
  have 1: "files filename = None \<longrightarrow> load_store files filename = Inl FileNotFoundError"
    by (simp add: load_store_def)
  have 2: "files filename = Some (Text []) \<longrightarrow> load_store files filename = Inr []"
    by (simp add: load_store_def)
  have 3: "\<forall>content. files filename = Some (Text content) \<and> content \<noteq> [] \<longrightarrow>
      load_store files filename = Inl JSONDecodeError"
    by (simp add: load_store_def)
  have 4: "\<forall>e. load_store files filename = Inl e \<longrightarrow>
      update_json_file files filename data_dict = Inl e \<and>
      update_paper_links env files filename w = Inl e \<and>
      json_to_md today files filename md_filename to_web use_title use_tc use_b2t = Inl e \<and>
      publish env cfg today data_collector filename md_filename to_web use_tc use_b2t (files, w) =
        Inl e"
    by (simp add: load_failure_update_json_file load_failure_update_paper_links
        load_failure_json_to_md load_failure_publish)
  have 5: "\<forall>e. publish_readme cfg \<and> load_store files (json_readme_path cfg) = Inl e \<longrightarrow>
      (\<exists>e'. demo translater env cfg today files w = Inl e')"
    using load_failure_demo by blast
  show ?thesis using 1 2 3 4 5 by blast
qed

theorem bad_store_file_counterexample:
  "load_store Map.empty ''docs/daily.json'' = Inl FileNotFoundError \<and>
   update_json_file Map.empty ''docs/daily.json''
     [[(''nerf'', [(''2401.00001'', ''|a|'')])]] = Inl FileNotFoundError \<and>
   load_store [''docs/daily.json'' \<mapsto> Text ''not json''] ''docs/daily.json'' =
     Inl JSONDecodeError \<and>
   update_json_file [''docs/daily.json'' \<mapsto> Text ''not json''] ''docs/daily.json''
     [[(''nerf'', [(''2401.00001'', ''|a|'')])]] = Inl JSONDecodeError"
  by (simp add: load_store_def update_json_file_def)

theorem bad_store_file_is_fatal_witness:
  "[''docs/daily.json'' \<mapsto> Text ''not json''] ''docs/daily.json'' = Some (Text ''not json'') \<and>
   ''not json'' \<noteq> [] \<and>
   load_store [''docs/daily.json'' \<mapsto> Text ''not json''] ''docs/daily.json'' =
     Inl JSONDecodeError \<and>
   update_json_file [''docs/daily.json'' \<mapsto> Text ''not json''] ''docs/daily.json'' [] =
     Inl JSONDecodeError \<and>
   [''docs/daily.json'' \<mapsto> Text []] ''docs/daily.json'' = Some (Text []) \<and>
   load_store [''docs/daily.json'' \<mapsto> Text []] ''docs/daily.json'' = Inr []"
  using bad_store_file_is_fatal[of "[''docs/daily.json'' \<mapsto> Text ''not json'']" "''docs/daily.json''"
      "[]"]
    bad_store_file_is_fatal[of "[''docs/daily.json'' \<mapsto> Text []]" "''docs/daily.json''"]
  by simp

subsection \<open>A failing search\<close>

lemma collect_append:
  "collect translater env n (pre @ post) st =
     (case collect translater env n pre st of
        Inl e \<Rightarrow> Inl e
      | Inr st' \<Rightarrow> collect translater env n post st')"
proof (induction pre arbitrary: st)
  case Nil
  then show ?case by simp
next
  case (Cons p pre)
  obtain topic keyword where p: "p = (topic, keyword)" by (cases p)
  obtain dc dcw w where st: "st = (dc, dcw, w)" by (cases st)
  show ?case
    using Cons.IH by (simp add: p st split: sum.splits prod.splits)
qed

text \<open>
  Claim C4, as the code has it. In harvest mode, when the search of one topic fails
  after the topics before it were harvested, the exception is not caught: it leaves
  \<open>get_daily_papers\<close>, the loop over the topics and \<open>demo\<close>, whatever topics
  come after, and the run ends with that exception.
\<close>

theorem harvest_failure_aborts_run:
  assumes "\<not> update_links cfg"
    and "kv cfg = pre @ (topic, keyword) # post"
    and "collect translater env (max_results cfg) pre ([], [], w) = Inr (dc, dcw, w1)"
    and "search env keyword (max_results cfg) = Inl e"
  shows "get_daily_papers translater env topic keyword (max_results cfg) w1 = Inl e \<and>
         collect translater env (max_results cfg) (kv cfg) ([], [], w) = Inl e \<and>
         demo translater env cfg today files w = Inl e"
proof -
  have g: "get_daily_papers translater env topic keyword (max_results cfg) w1 = Inl e"
    using assms(4) by (simp add: get_daily_papers_def)
  then have c: "collect translater env (max_results cfg) (kv cfg) ([], [], w) = Inl e"
    using assms(2,3) by (simp add: collect_append)
  then have "demo translater env cfg today files w = Inl e"
    using assms(1) by (simp add: demo_def)
  then show ?thesis using g c by simp
qed


theorem harvest_failure_counterexample:
  "demo None
     \<lparr>search = (\<lambda>q n. if q = ''abs:nerf'' then Inl (ServiceError ''HTTP 503'') else Inr []),
      registry = (\<lambda>n u. Inr None)\<rparr>
     \<lparr>kv = [(''nerf'', ''abs:nerf''), (''ocr'', ''abs:ocr'')], max_results = 2,
      publish_readme = True, publish_gitpage = False, update_links = False,
      json_readme_path = ''docs/daily.json'', md_readme_path = ''README.md'',
      json_gitpage_path = ''docs/web.json'', md_gitpage_path = ''docs/index.md''\<rparr>
     ''2024-01-05'' [''docs/daily.json'' \<mapsto> JsonDoc []]
     \<lparr>calls = 0, slept = [], requests = []\<rparr> = Inl (ServiceError ''HTTP 503'') \<and>
   get_daily_papers None
     \<lparr>search = (\<lambda>q n. if q = ''abs:nerf'' then Inl (ServiceError ''HTTP 503'') else Inr []),
      registry = (\<lambda>n u. Inr None)\<rparr>
     ''ocr'' ''abs:ocr'' 2 \<lparr>calls = 0, slept = [], requests = []\<rparr> =
     Inr ([(''ocr'', [])], [(''ocr'', [])], \<lparr>calls = 0, slept = [], requests = []\<rparr>)"
  by (simp add: demo_def get_daily_papers_def)

theorem harvest_failure_aborts_run_witness:
  "\<not> update_links
      \<lparr>kv = [(''ocr'', ''abs:ocr''), (''nerf'', ''abs:nerf''), (''llm'', ''abs:llm'')],
       max_results = 2, publish_readme = True, publish_gitpage = False, update_links = False,
       json_readme_path = ''docs/daily.json'', md_readme_path = ''README.md'',
       json_gitpage_path = ''docs/web.json'', md_gitpage_path = ''docs/index.md''\<rparr> \<and>
   collect None
     \<lparr>search = (\<lambda>q n. if q = ''abs:nerf'' then Inl (ServiceError ''HTTP 503'') else Inr []),
      registry = (\<lambda>n u. Inr None)\<rparr> 2 [(''ocr'', ''abs:ocr'')]
     ([], [], \<lparr>calls = 0, slept = [], requests = []\<rparr>) =
     Inr ([[(''ocr'', [])]], [[(''ocr'', [])]], \<lparr>calls = 0, slept = [], requests = []\<rparr>) \<and>
   demo None
     \<lparr>search = (\<lambda>q n. if q = ''abs:nerf'' then Inl (ServiceError ''HTTP 503'') else Inr []),
      registry = (\<lambda>n u. Inr None)\<rparr>
     \<lparr>kv = [(''ocr'', ''abs:ocr''), (''nerf'', ''abs:nerf''), (''llm'', ''abs:llm'')],
      max_results = 2, publish_readme = True, publish_gitpage = False, update_links = False,
      json_readme_path = ''docs/daily.json'', md_readme_path = ''README.md'',
      json_gitpage_path = ''docs/web.json'', md_gitpage_path = ''docs/index.md''\<rparr>
     ''2024-01-05'' [''docs/daily.json'' \<mapsto> JsonDoc []]
     \<lparr>calls = 0, slept = [], requests = []\<rparr> = Inl (ServiceError ''HTTP 503'')"
proof -
  let ?env = "\<lparr>search = (\<lambda>q n. if q = ''abs:nerf'' then Inl (ServiceError ''HTTP 503'') else Inr []),
      registry = (\<lambda>n u. Inr None)\<rparr>"
  let ?cfg = "\<lparr>kv = [(''ocr'', ''abs:ocr''), (''nerf'', ''abs:nerf''), (''llm'', ''abs:llm'')],
       max_results = 2, publish_readme = True, publish_gitpage = False, update_links = False,
       json_readme_path = ''docs/daily.json'', md_readme_path = ''README.md'',
       json_gitpage_path = ''docs/web.json'', md_gitpage_path = ''docs/index.md''\<rparr>"
  let ?w = "\<lparr>calls = 0, slept = [], requests = []\<rparr>"
  have 1: "\<not> update_links ?cfg" by simp
  have 2: "kv ?cfg = [(''ocr'', ''abs:ocr'')] @ (''nerf'', ''abs:nerf'') # [(''llm'', ''abs:llm'')]"
    by simp
  have 3: "collect None ?env (max_results ?cfg) [(''ocr'', ''abs:ocr'')] ([], [], ?w) =
      Inr ([[(''ocr'', [])]], [[(''ocr'', [])]], ?w)"
    by (simp add: get_daily_papers_def)
  have 4: "search ?env ''abs:nerf'' (max_results ?cfg) = Inl (ServiceError ''HTTP 503'')"
    by simp
  show ?thesis
    using 1 3 harvest_failure_aborts_run[OF 1 2 3 4, of "''2024-01-05''"
        "[''docs/daily.json'' \<mapsto> JsonDoc []]"]
    by simp
qed

subsection \<open>The repair pass\<close>

lemma find_from_sublist:
  "sub \<noteq> [] \<Longrightarrow> find_from i sub s \<noteq> - 1 \<longleftrightarrow> sublist sub s"
proof (induction s arbitrary: i)
  case Nil
  then show ?case by simp
next
  case (Cons c cs)
  show ?case
  proof (cases "prefix sub (c # cs)")
    case True
    then show ?thesis by (simp add: prefix_imp_sublist)
  next
    case False
    then show ?thesis using Cons by (simp add: sublist_Cons_right)
  qed
qed

lemma str_in_sublist: "sub \<noteq> [] \<Longrightarrow> str_in sub s \<longleftrightarrow> sublist sub s"
  by (simp add: str_in_def str_find_def find_from_sublist)

lemma prefix_field:
  "sep \<notin> set f \<Longrightarrow> sep \<notin> set g \<Longrightarrow> prefix (g @ [sep]) (f @ sep # rest) \<longleftrightarrow> f = g"
proof (induction g arbitrary: f)
  case Nil
  then show ?case by (cases f) auto
next
  case (Cons y g)
  then show ?case by (cases f) auto
qed

lemma sublist_skip_field:
  "CHR ''|'' \<notin> set f \<Longrightarrow> sublist (CHR ''|'' # old) (f @ r) \<longleftrightarrow> sublist (CHR ''|'' # old) r"
  by (induction f) (auto simp: sublist_Cons_right)

lemma sublist_null_field:
  assumes "CHR ''|'' \<notin> set f"
  shows "sublist ''|null|'' (CHR ''|'' # f @ CHR ''|'' # rest) \<longleftrightarrow>
           f = ''null'' \<or> sublist ''|null|'' (CHR ''|'' # rest)"
proof -
  have "prefix ''|null|'' (CHR ''|'' # f @ CHR ''|'' # rest) \<longleftrightarrow>
          prefix (''null'' @ [CHR ''|'']) (f @ CHR ''|'' # rest)"
    by simp
  also have "\<dots> \<longleftrightarrow> f = ''null''"
    using assms by (subst prefix_field) auto
  finally have p: "prefix ''|null|'' (CHR ''|'' # f @ CHR ''|'' # rest) \<longleftrightarrow> f = ''null''" .
  have "sublist ''|null|'' (f @ CHR ''|'' # rest) \<longleftrightarrow> sublist ''|null|'' (CHR ''|'' # rest)"
    using assms by (rule sublist_skip_field)
  then show ?thesis using p by (simp add: sublist_Cons_right)
qed

lemma str_replace_skip:
  "CHR ''|'' \<notin> set f \<Longrightarrow>
     str_replace (CHR ''|'' # old) new (f @ r) = f @ str_replace (CHR ''|'' # old) new r"
proof (induction f)
  case Nil
  then show ?case by simp
next
  case (Cons x f)
  then have "x \<noteq> CHR ''|''" by auto
  then have "str_replace (CHR ''|'' # old) new ((x # f) @ r) =
      x # str_replace (CHR ''|'' # old) new (f @ r)"
    by (subst str_replace.simps) simp
  then show ?case using Cons by simp
qed

lemma str_replace_field:
  assumes "CHR ''|'' \<notin> set f" and "f \<noteq> ''null''"
  shows "str_replace ''|null|'' new (CHR ''|'' # f @ CHR ''|'' # rest) =
           CHR ''|'' # f @ str_replace ''|null|'' new (CHR ''|'' # rest)"
proof -
  have "prefix (''null'' @ [CHR ''|'']) (f @ CHR ''|'' # rest) \<longleftrightarrow> f = ''null''"
    using assms(1) by (subst prefix_field) auto
  then have "\<not> prefix ''|null|'' (CHR ''|'' # f @ CHR ''|'' # rest)"
    using assms(2) by simp
  then have "str_replace ''|null|'' new (CHR ''|'' # f @ CHR ''|'' # rest) =
      CHR ''|'' # str_replace ''|null|'' new (f @ CHR ''|'' # rest)"
    by (subst str_replace.simps) simp
  then show ?thesis using assms(1) str_replace_skip[of f "''null|''" new] by simp
qed

lemma str_replace_hit:
  "str_replace ''|null|'' new (''|null|'' @ rest) = new @ str_replace ''|null|'' new rest"
  by (subst str_replace.simps) simp

lemma str_replace_end:
  "str_replace ''|null|'' new [CHR ''|'', newline] = [CHR ''|'', newline]"
  by (simp add: str_replace.simps newline_def)


lemma valid_link_format:
  assumes "CHR ''|'' \<notin> set d" "CHR ''|'' \<notin> set t" "CHR ''|'' \<notin> set i"
    "CHR ''|'' \<notin> set c" "CHR ''|'' \<notin> set a"
    and "d \<noteq> ''null''" "t \<noteq> ''null''" "i \<noteq> ''null''" "a \<noteq> ''null''"
  shows "valid_link (format_contents d t i c a) \<longleftrightarrow> c \<noteq> ''null''"
proof -
  have f: "format_contents d t i c a =
      CHR ''|'' # d @ CHR ''|'' # t @ CHR ''|'' # i @ CHR ''|'' # c @ CHR ''|'' # a @
      CHR ''|'' # [newline]"
    by (simp add: format_contents_def)
  have e: "\<not> sublist ''|null|'' [CHR ''|'', newline]"
    by (simp add: sublist_Cons_right newline_def)
  let ?N = "''|null|''"
  have "sublist ?N (format_contents d t i c a) \<longleftrightarrow>
      sublist ?N (CHR ''|'' # t @ CHR ''|'' # i @ CHR ''|'' # c @ CHR ''|'' # a @ CHR ''|'' # [newline])"
    unfolding f using sublist_null_field[OF assms(1)] assms(6) by simp
  also have "\<dots> \<longleftrightarrow>
      sublist ?N (CHR ''|'' # i @ CHR ''|'' # c @ CHR ''|'' # a @ CHR ''|'' # [newline])"
    using sublist_null_field[OF assms(2)] assms(7) by simp
  also have "\<dots> \<longleftrightarrow> sublist ?N (CHR ''|'' # c @ CHR ''|'' # a @ CHR ''|'' # [newline])"
    using sublist_null_field[OF assms(3)] assms(8) by simp
  also have "\<dots> \<longleftrightarrow> c = ''null'' \<or> sublist ?N (CHR ''|'' # a @ CHR ''|'' # [newline])"
    using sublist_null_field[OF assms(4)] by simp
  also have "\<dots> \<longleftrightarrow> c = ''null''"
    using sublist_null_field[OF assms(5), of "[newline]"] assms(9) e by simp
  finally show ?thesis by (simp add: valid_link_def str_in_sublist)
qed

lemma replace_format:
  assumes "CHR ''|'' \<notin> set d" "CHR ''|'' \<notin> set t" "CHR ''|'' \<notin> set i" "CHR ''|'' \<notin> set a"
    and "d \<noteq> ''null''" "t \<noteq> ''null''" "i \<noteq> ''null''"
  shows "str_replace ''|null|'' (''|'' @ link @ ''|'') (format_contents d t i ''null'' a) =
           format_contents d t i link a"
proof -
  have f: "format_contents d t i ''null'' a =
      CHR ''|'' # d @ CHR ''|'' # t @ CHR ''|'' # i @ ''|null|'' @ a @ [CHR ''|'', newline]"
    by (simp add: format_contents_def)
  have "str_replace ''|null|'' (''|'' @ link @ ''|'') (a @ [CHR ''|'', newline]) =
      a @ [CHR ''|'', newline]"
    using assms(4) str_replace_skip[of a "''null|''"] by (simp add: str_replace_end)
  then have "str_replace ''|null|'' (''|'' @ link @ ''|'') (''|null|'' @ a @ [CHR ''|'', newline]) =
      (''|'' @ link @ ''|'') @ a @ [CHR ''|'', newline]"
    by (simp only: str_replace_hit)
  then have "str_replace ''|null|'' (''|'' @ link @ ''|'')
        (CHR ''|'' # i @ ''|null|'' @ a @ [CHR ''|'', newline]) =
      CHR ''|'' # i @ (''|'' @ link @ ''|'') @ a @ [CHR ''|'', newline]"
    using str_replace_field[OF assms(3) assms(7), of "''|'' @ link @ ''|''"] by simp
  then have "str_replace ''|null|'' (''|'' @ link @ ''|'')
        (CHR ''|'' # t @ CHR ''|'' # i @ ''|null|'' @ a @ [CHR ''|'', newline]) =
      CHR ''|'' # t @ CHR ''|'' # i @ (''|'' @ link @ ''|'') @ a @ [CHR ''|'', newline]"
    using str_replace_field[OF assms(2) assms(6), of "''|'' @ link @ ''|''"] by simp
  then have "str_replace ''|null|'' (''|'' @ link @ ''|'') (format_contents d t i ''null'' a) =
      CHR ''|'' # d @ CHR ''|'' # t @ CHR ''|'' # i @ (''|'' @ link @ ''|'') @ a @ [CHR ''|'', newline]"
    unfolding f using str_replace_field[OF assms(1) assms(5), of "''|'' @ link @ ''|''"] by simp
  then show ?thesis by (simp add: format_contents_def)
qed

lemma repair_record_fields:
  assumes "str_split (CHR ''|'') contents0 = [p0, p1, p2, p3, p4, p5, p6]"
    and "str_strip p1 \<noteq> ''null''" and "str_strip p2 \<noteq> ''null''"
    and "re_sub_version (str_strip p3) \<noteq> ''null''" and "str_strip p5 \<noteq> ''null''"
  shows "repair_record env paper_id contents0 w =
     (if str_strip p4 \<noteq> ''null''
      then Inr (format_contents (str_strip p1) (str_strip p2) (re_sub_version (str_strip p3))
                  (str_strip p4) (str_strip p5), w)
      else (case lookup env (base_url @ paper_id) w of
              (Inr (Some repo_url), w') \<Rightarrow>
                Inr (format_contents (str_strip p1) (str_strip p2) (re_sub_version (str_strip p3))
                       (''**[link]('' @ repo_url @ '')**'') (str_strip p5), w')
            | (Inr None, w') \<Rightarrow>
                Inr (format_contents (str_strip p1) (str_strip p2) (re_sub_version (str_strip p3))
                       ''null'' (str_strip p5), w')
            | (Inl e, w') \<Rightarrow>
                Inr (format_contents (str_strip p1) (str_strip p2) (re_sub_version (str_strip p3))
                       ''null'' (str_strip p5), w')))"
proof -
  define d where "d = str_strip p1"
  define t where "t = str_strip p2"
  define i where "i = re_sub_version (str_strip p3)"
  define c where "c = str_strip p4"
  define a where "a = str_strip p5"
  have p: "parse_arxiv_string contents0 = Inr (d, t, i, c, a)"
    using assms(1) by (simp add: parse_arxiv_string_def index_at_def Let_def d_def t_def i_def c_def a_def)
  have no: "CHR ''|'' \<notin> set d" "CHR ''|'' \<notin> set t" "CHR ''|'' \<notin> set i"
    "CHR ''|'' \<notin> set c" "CHR ''|'' \<notin> set a"
    using parse_fields[OF p] by simp_all
  have nn: "d \<noteq> ''null''" "t \<noteq> ''null''" "i \<noteq> ''null''" "a \<noteq> ''null''"
    using assms(2-5) by (simp_all add: d_def t_def i_def a_def)
  have v: "valid_link (format_contents d t i c a) \<longleftrightarrow> c \<noteq> ''null''"
    using no nn by (rule valid_link_format)
  have r: "str_replace ''|null|'' (''|**[link]('' @ u @ '')**|'') (format_contents d t i ''null'' a) =
      format_contents d t i (''**[link]('' @ u @ '')**'') a" for u
    using replace_format[OF no(1,2,3,5) nn(1,2,3), of "''**[link]('' @ u @ '')**''"] by simp
  have "repair_record env paper_id contents0 w =
     (if c \<noteq> ''null'' then Inr (format_contents d t i c a, w)
      else (case lookup env (base_url @ paper_id) w of
              (Inr (Some repo_url), w') \<Rightarrow>
                Inr (format_contents d t i (''**[link]('' @ repo_url @ '')**'') a, w')
            | (Inr None, w') \<Rightarrow> Inr (format_contents d t i ''null'' a, w')
            | (Inl e, w') \<Rightarrow> Inr (format_contents d t i ''null'' a, w')))"
    using p v r
    by (auto simp: repair_record_def Let_def split: prod.splits sum.splits option.splits)
  then show ?thesis by (simp only: d_def t_def i_def c_def a_def)
qed


lemma repair_bucket_keys:
  "repair_bucket env b w = Inr (b', w') \<Longrightarrow> map fst b' = map fst b"
proof (induction b arbitrary: b' w)
  case Nil
  then show ?case by simp
next
  case (Cons x b)
  obtain paper_id c0 where x: "x = (paper_id, c0)" by (cases x)
  obtain c1 w1 where r1: "repair_record env paper_id c0 w = Inr (c1, w1)"
    using Cons.prems by (auto simp: x split: sum.splits)
  obtain rest' where r2: "repair_bucket env b w1 = Inr (rest', w')" and b': "b' = (paper_id, c1) # rest'"
    using Cons.prems r1 by (auto simp: x split: sum.splits)
  show ?case using Cons.IH[OF r2] b' x by simp
qed

lemma repair_store_keys:
  "repair_store env m w = Inr (m', w') \<Longrightarrow>
     map (\<lambda>(topic, b). (topic, map fst b)) m' = map (\<lambda>(topic, b). (topic, map fst b)) m"
proof (induction m arbitrary: m' w)
  case Nil
  then show ?case by simp
next
  case (Cons x m)
  obtain topic v where x: "x = (topic, v)" by (cases x)
  obtain v' w1 where r1: "repair_bucket env v w = Inr (v', w1)"
    using Cons.prems by (auto simp: x split: sum.splits)
  obtain rest' where r2: "repair_store env m w1 = Inr (rest', w')" and m': "m' = (topic, v') # rest'"
    using Cons.prems r1 by (auto simp: x split: sum.splits)
  show ?case using Cons.IH[OF r2] repair_bucket_keys[OF r1] m' x by simp
qed

text \<open>
  Claim C6 at a concrete store. The record is the one \<open>get_daily_papers\<close> writes for
  a paper whose abstract holds a bar, \<open>We model p(y|x) directly.\<close>; the split at the
  bars gives more than five fields, and \<open>update_paper_links\<close> writes back the first
  five only. The registry has no link, so the code field stays \<open>null\<close>, and yet the
  abstract comes back cut at its first bar.
\<close>

theorem repair_truncates_abstract:
  "harvest_paper None \<lparr>search = (\<lambda>q n. Inr []), registry = (\<lambda>n u. Inr None)\<rparr>
     \<lparr>short_id = ''2401.00001v1'', title = ''T'', summary = ''We model p(y|x) directly.'',
       authors = [''A. Author''], updated = ''2024-01-01''\<rparr>
     ([], [], \<lparr>calls = 0, slept = [], requests = []\<rparr>) =
   Inr ([(''2401.00001'',
          ''|**2024-01-01**|**T**|[2401.00001](http://arxiv.org/abs/2401.00001)|null|**We model p(y|x) directly.**|'' @ [newline])],
        [(''2401.00001'',
          ''- 2024-01-01, **T**, Paper: [http://arxiv.org/abs/2401.00001](http://arxiv.org/abs/2401.00001),**We model p(y|x) directly.**'' @ [newline])],
        \<lparr>calls = 0, slept = [],
          requests = [''https://arxiv.paperswithcode.com/api/v0/papers/2401.00001v1'']\<rparr>) \<and>
   repair_store \<lparr>search = (\<lambda>q n. Inr []), registry = (\<lambda>n u. Inr None)\<rparr>
     [(''nerf'', [(''2401.00001'',
        ''|**2024-01-01**|**T**|[2401.00001](http://arxiv.org/abs/2401.00001)|null|**We model p(y|x) directly.**|'' @ [newline])])]
     \<lparr>calls = 0, slept = [], requests = []\<rparr> =
   Inr ([(''nerf'', [(''2401.00001'',
          ''|**2024-01-01**|**T**|[2401.00001](http://arxiv.org/abs/2401.00001)|null|**We model p(y|'' @ [newline])])],
        \<lparr>calls = 0, slept = [],
          requests = [''https://arxiv.paperswithcode.com/api/v0/papers/2401.00001'']\<rparr>)"
  by code_simp

subsection \<open>The order of the rendered rows\<close>

lemma sort_papers_keys: "map fst (sort_papers papers) = rev (sort (map fst papers))"
proof -
  have "set ks \<subseteq> fst ` set papers \<Longrightarrow>
      map fst (concat (map (\<lambda>key. case map_of papers key of Some v \<Rightarrow> [(key, v)] | None \<Rightarrow> [])
                         ks)) = ks" for ks
  proof (induction ks)
    case Nil
    then show ?case by simp
  next
    case (Cons k ks)
    then have "k \<in> fst ` set papers" by simp
    then obtain v where "map_of papers k = Some v"
      by (metis map_of_eq_None_iff not_Some_eq)
    then show ?case using Cons by simp
  qed
  then show ?thesis by (simp add: sort_papers_def)
qed

text \<open>
  Claim C5 at a concrete bucket: three records whose keys ascend while their dates read
  2024-01-03, 2024-01-01 and 2024-01-02. The rows are written in descending key order,
  which is the date order 2024-01-02, 2024-01-01, 2024-01-03.
\<close>

theorem render_order_example:
  "map fst (sort_papers
     [(''2401.00001'', content_line ''2024-01-03'' ''A'' ''2401.00001''
         ''http://arxiv.org/abs/2401.00001'' None ''a''),
      (''2401.00002'', content_line ''2024-01-01'' ''B'' ''2401.00002''
         ''http://arxiv.org/abs/2401.00002'' None ''b''),
      (''2401.00003'', content_line ''2024-01-02'' ''C'' ''2401.00003''
         ''http://arxiv.org/abs/2401.00003'' None ''c'')]) =
     [''2401.00003'', ''2401.00002'', ''2401.00001''] \<and>
   write_rows (sort_papers
     [(''2401.00001'', content_line ''2024-01-03'' ''A'' ''2401.00001''
         ''http://arxiv.org/abs/2401.00001'' None ''a''),
      (''2401.00002'', content_line ''2024-01-01'' ''B'' ''2401.00002''
         ''http://arxiv.org/abs/2401.00002'' None ''b''),
      (''2401.00003'', content_line ''2024-01-02'' ''C'' ''2401.00003''
         ''http://arxiv.org/abs/2401.00003'' None ''c'')]) =
     Inr (''|**2024-01-02**|**C**|[2401.00003](http://arxiv.org/abs/2401.00003)|null|**c**|'' @ [newline] @
          ''|**2024-01-01**|**B**|[2401.00002](http://arxiv.org/abs/2401.00002)|null|**b**|'' @ [newline] @
          ''|**2024-01-03**|**A**|[2401.00001](http://arxiv.org/abs/2401.00001)|null|**a**|'' @ [newline])"
  by code_simp

subsection \<open>The key of a paper\<close>

lemma find_from_char:
  "find_from i [x] s =
     (if x \<in> set s then int (i + length (takeWhile (\<lambda>c. c \<noteq> x) s)) else - 1)"
  by (induction s arbitrary: i) auto

lemma paper_key_of_takeWhile:
  "paper_key_of paper_id = takeWhile (\<lambda>c. c \<noteq> CHR ''v'') paper_id"
proof (cases "CHR ''v'' \<in> set paper_id")
  case True
  then have "str_find paper_id ''v'' = int (length (takeWhile (\<lambda>c. c \<noteq> CHR ''v'') paper_id))"
    by (simp add: str_find_def find_from_char)
  then show ?thesis
    by (simp add: paper_key_of_def Let_def takeWhile_eq_take[symmetric])
next
  case False
  then have tw: "takeWhile (\<lambda>c. c \<noteq> CHR ''v'') paper_id = paper_id"
    by auto
  have "paper_key_of paper_id = paper_id"
    using False by (simp add: paper_key_of_def str_find_def find_from_char)
  then show ?thesis by (simp only: tw)
qed

text \<open>
  Claim C9 at concrete ids. The key of a raw id is its part before the first \<open>v\<close>:
  for \<open>2108.09112v2\<close> that is the id without its version, for an id of the archive
  \<open>solv-int\<close> it is \<open>sol\<close>, with or without a version and for every paper of the
  archive, where \<open>re.sub(r"v\d+", "", ...)\<close> of \<open>parse_arxiv_string\<close> removes the version only.
\<close>

theorem paper_key_of_old_style_id:
  "paper_key_of ''solv-int/9901001v1'' = ''sol'' \<and>
   paper_key_of ''solv-int/9901001'' = ''sol'' \<and>
   paper_key_of ''solv-int/9901002v1'' = ''sol'' \<and>
   re_sub_version ''solv-int/9901001v1'' = ''solv-int/9901001'' \<and>
   paper_key_of ''2108.09112v2'' = ''2108.09112'' \<and>
   paper_key_of ''2108.09112v1'' = ''2108.09112''"
  by code_simp

end
